theory Spec2Isabelle
  imports
    Complex_Main
    "HOL-Library.Word"
    "HOL-Library.Mapping"
    "HOL-Library.AList_Mapping"
    "HOL-Library.Code_Target_Nat"
begin

section \<open>cthreading: Lock, RLock and Condition on POSIX semaphores\<close>

text \<open>
  A shallow embedding of \<^verbatim>\<open>cthreading/_cthreading.c\<close>. A C function is a HOL function
  of the same name. The objects a function mutates are passed in and returned;
  a Python exception (the C function returns \<^verbatim>\<open>NULL\<close> with the error indicator set)
  is the value \<open>Raises e\<close>; a failed \<^verbatim>\<open>assert\<close> or a dereference of an invalid
  pointer is \<open>Aborts c\<close> (assertions are compiled in); a blocking call that is never
  woken returns \<open>None\<close>.
  Writes of other threads to an object while the caller is blocked are not part of the
  model, except where \<open>Condition_wait\<close> parks on its private semaphore.
  The calling thread's identity (\<^verbatim>\<open>PyThread_get_thread_ident()\<close>), the wall clock
  (\<^verbatim>\<open>gettimeofday\<close>) and the results of blocking system calls are parameters.
\<close>

subsection \<open>C integers\<close>

text \<open>
  \<^verbatim>\<open>long\<close> is 64 bits and \<^verbatim>\<open>int\<close> 32 bits (LP64). Signed arithmetic is written over
  \<open>int\<close> with the two's-complement wrap-around spelled out at every operation; the
  unsigned recursion counter of RLock and the thread identities are 64-bit words.
\<close>

definition INT_MAX :: int where
  "INT_MAX = 2147483647"

definition LONG_MIN :: int where
  "LONG_MIN = - 9223372036854775808"

definition LONG_MAX :: int where
  "LONG_MAX = 9223372036854775807"

definition s64 :: "int \<Rightarrow> int" where
  "s64 x = (x + 9223372036854775808) mod 18446744073709551616 - 9223372036854775808"

definition s32 :: "int \<Rightarrow> int" where
  "s32 x = (x + 2147483648) mod 4294967296 - 2147483648"

text \<open>
  A finite \<^verbatim>\<open>double\<close> is the real number it denotes, and arithmetic on doubles is taken
  exact. The cast \<^verbatim>\<open>(long)x\<close> truncates towards zero; when the truncated value does not
  fit a \<^verbatim>\<open>long\<close> the C standard leaves the result undefined, and the x86-64 conversion
  instruction yields \<^verbatim>\<open>LONG_MIN\<close>, which is what the model returns.
\<close>

definition double_to_long :: "real \<Rightarrow> int" where
  "double_to_long x =
     (let t = (if 0 \<le> x then \<lfloor>x\<rfloor> else \<lceil>x\<rceil>)
      in if LONG_MIN \<le> t \<and> t \<le> LONG_MAX then t else LONG_MIN)"

subsection \<open>Deadline arithmetic\<close>

record timeval =
  tv_sec :: int
  tv_usec :: int

text \<open>\<^verbatim>\<open>struct timespec\<close>; its fields are \<^verbatim>\<open>tv_sec\<close> and \<^verbatim>\<open>tv_nsec\<close> in C.\<close>

record timespec =
  ts_sec :: int
  ts_nsec :: int

definition USEC_PER_SEC :: int where
  "USEC_PER_SEC = 1000000"

definition NSEC_PER_USEC :: int where
  "NSEC_PER_USEC = 1000"

text \<open>The second argument is the time \<^verbatim>\<open>gettimeofday\<close> stores into \<^verbatim>\<open>tv\<close>.\<close>

definition deadline_from_timeout :: "real \<Rightarrow> timeval \<Rightarrow> timespec" where
  "deadline_from_timeout timeout now =
     (let timeout_sec = double_to_long timeout;
          timeout_usec = double_to_long
             ((timeout - real_of_int (double_to_long timeout)) * real_of_int USEC_PER_SEC);
          tv = now;
          tv = (if tv_sec tv \<le> s64 (INT_MAX - timeout_sec)
                then tv\<lparr>tv_sec := s64 (tv_sec tv + timeout_sec)\<rparr>
                else tv\<lparr>tv_sec := INT_MAX\<rparr>);
          tv = tv\<lparr>tv_usec := s64 (tv_usec tv + timeout_usec)\<rparr>;
          tv = (if tv_usec tv > 1000000
                then (let tv = tv\<lparr>tv_usec := s64 (tv_usec tv - 1000000)\<rparr>
                      in if tv_sec tv \<le> INT_MAX - 1
                         then tv\<lparr>tv_sec := s64 (tv_sec tv + 1)\<rparr>
                         else tv)
                else tv)
      in \<lparr>ts_sec = tv_sec tv, ts_nsec = s64 (tv_usec tv * NSEC_PER_USEC)\<rparr>)"

subsection \<open>Python values and exceptions\<close>

text \<open>
  The timeout argument as \<^verbatim>\<open>PyFloat_AsDouble\<close> sees it: \<^verbatim>\<open>None\<close>, a number, or an
  object that is not a number (for which the conversion raises \<^verbatim>\<open>TypeError\<close>).
\<close>

datatype pyobject = Py_None | PyFloat real | PyNotNumber

datatype exn =
    ValueError
  | TypeError
  | ThreadError
  | RuntimeError
  | OverflowError
  | AttributeError
  | OSError nat

definition UNLIMITED :: real where
  "UNLIMITED = - 1"

definition parse_timeout :: "pyobject \<Rightarrow> exn + real" where
  "parse_timeout obj =
     (case obj of
        Py_None \<Rightarrow> Inr UNLIMITED
      | PyNotNumber \<Rightarrow> Inl TypeError
      | PyFloat v \<Rightarrow>
          if v < 0 \<and> v \<noteq> UNLIMITED then Inl ValueError else Inr v)"

text \<open>
  \<^verbatim>\<open>acquire(blocking=True, timeout=-1)\<close>: \<open>blocking\<close> is the C \<^verbatim>\<open>int\<close> the argument
  parser stores, \<open>obj\<close> the timeout object (\<^verbatim>\<open>None\<close> when it is not given).
\<close>

definition acquire_parse_args :: "int \<Rightarrow> pyobject \<Rightarrow> exn + real" where
  "acquire_parse_args blocking obj =
     (case parse_timeout obj of
        Inl e \<Rightarrow> Inl e
      | Inr v \<Rightarrow>
          if blocking = 0 \<and> v \<noteq> UNLIMITED then Inl ValueError
          else if blocking \<noteq> 0 then Inr v
          else Inr 0)"

subsection \<open>POSIX semaphores\<close>

text \<open>
  A semaphore is its value. \<^verbatim>\<open>sem_post\<close> fails with \<^verbatim>\<open>EOVERFLOW\<close> when the value is
  already \<^verbatim>\<open>SEM_VALUE_MAX\<close>; \<^verbatim>\<open>sem_trywait\<close> fails with \<^verbatim>\<open>EAGAIN\<close> when the value is
  zero, and is never interrupted, so the retry loop around it runs once.
\<close>

type_synonym sem_t = nat

definition SEM_VALUE_MAX :: nat where
  "SEM_VALUE_MAX = 2147483647"

definition EINTR :: nat where "EINTR = 4"
definition EAGAIN :: nat where "EAGAIN = 11"
definition EINVAL :: nat where "EINVAL = 22"
definition EOVERFLOW :: nat where "EOVERFLOW = 75"
definition ETIMEDOUT :: nat where "ETIMEDOUT = 110"

definition sem_init :: "nat \<Rightarrow> nat + sem_t" where
  "sem_init v = (if v \<le> SEM_VALUE_MAX then Inr v else Inl EINVAL)"

definition sem_post :: "sem_t \<Rightarrow> nat + sem_t" where
  "sem_post sem = (if sem < SEM_VALUE_MAX then Inr (sem + 1) else Inl EOVERFLOW)"

definition sem_trywait :: "sem_t \<Rightarrow> nat + sem_t" where
  "sem_trywait sem = (if 0 < sem then Inr (sem - 1) else Inl EAGAIN)"

text \<open>
  A blocking \<^verbatim>\<open>sem_wait\<close> or \<^verbatim>\<open>sem_timedwait\<close> returns when another thread posts the
  semaphore, when a signal interrupts it, when the deadline passes, or with another
  error. Which of these happens is decided outside the calling thread: the caller is
  given the list of the results of its successive blocking calls. When the list ends
  the thread stays blocked.
\<close>

datatype answer = Posted | Failed nat

record sys =
  sys_now :: timeval
  sys_answers :: "answer list"

text \<open>\<^verbatim>\<open>sem_timedwait\<close> rejects a deadline whose nanoseconds are out of range.\<close>

definition sem_timedwait :: "timespec \<Rightarrow> answer \<Rightarrow> answer" where
  "sem_timedwait deadline a =
     (if ts_nsec deadline < 0 \<or> 1000000000 \<le> ts_nsec deadline then Failed EINVAL else a)"

datatype acquire_result = ACQUIRE_OK | ACQUIRE_FAIL | ACQUIRE_ERROR exn

text \<open>The second retry loop of \<^verbatim>\<open>acquire_lock\<close>, run with the GIL released.\<close>

fun blocking_wait :: "real \<Rightarrow> timespec \<Rightarrow> answer list \<Rightarrow> answer option" where
  "blocking_wait timeout deadline [] = None"
| "blocking_wait timeout deadline (a # as) =
     (let err = (if timeout > 0 then sem_timedwait deadline a else a)
      in if err = Failed EINTR then blocking_wait timeout deadline as else Some err)"

definition acquire_lock :: "sem_t \<Rightarrow> real \<Rightarrow> sys \<Rightarrow> (acquire_result \<times> sem_t) option" where
  "acquire_lock sem timeout os =
     (case sem_trywait sem of
        Inr sem' \<Rightarrow> Some (ACQUIRE_OK, sem')
      | Inl errno \<Rightarrow>
          if errno \<noteq> EAGAIN then Some (ACQUIRE_ERROR (OSError errno), sem)
          else if timeout = 0 then Some (ACQUIRE_FAIL, sem)
          else
            (case blocking_wait timeout (deadline_from_timeout timeout (sys_now os))
                    (sys_answers os) of
               None \<Rightarrow> None
             | Some Posted \<Rightarrow> Some (ACQUIRE_OK, sem)
             | Some (Failed e) \<Rightarrow>
                 if timeout > 0 \<and> e = ETIMEDOUT then Some (ACQUIRE_FAIL, sem)
                 else Some (ACQUIRE_ERROR (OSError e), sem)))"

definition release_lock :: "sem_t \<Rightarrow> exn + sem_t" where
  "release_lock sem =
     (case sem_post sem of Inl errno \<Rightarrow> Inl (OSError errno) | Inr sem' \<Rightarrow> Inr sem')"

subsection \<open>Outcomes of the methods\<close>

datatype crash = AssertionFailed | InvalidPointer

datatype 'a outcome = Returns 'a | Raises exn | Aborts crash

text \<open>
  The state saved by \<^verbatim>\<open>_release_save\<close>: a Python integer built from the owner
  (\<^verbatim>\<open>"l"\<close>) for Lock, a pair built from count and owner (\<^verbatim>\<open>"kl"\<close>) for RLock.
\<close>

type_synonym long = "64 word"

type_synonym ulong = "64 word"

datatype saved_state = PyLong long | PyPair ulong long

subsection \<open>Lock\<close>

record Lock =
  lock_sem :: sem_t
  lock_owner :: long

definition Lock_new :: "exn + Lock" where
  "Lock_new =
     (case sem_init 1 of
        Inl errno \<Rightarrow> Inl (OSError errno)
      | Inr s \<Rightarrow> Inr \<lparr>lock_sem = s, lock_owner = 0\<rparr>)"

definition Lock_acquire ::
  "Lock \<Rightarrow> long \<Rightarrow> int \<Rightarrow> pyobject \<Rightarrow> sys \<Rightarrow> (bool outcome \<times> Lock) option" where
  "Lock_acquire self tid blocking obj os =
     (case acquire_parse_args blocking obj of
        Inl e \<Rightarrow> Some (Raises e, self)
      | Inr timeout \<Rightarrow>
          (case acquire_lock (lock_sem self) timeout os of
             None \<Rightarrow> None
           | Some (res, sem') \<Rightarrow>
               (let self = self\<lparr>lock_sem := sem'\<rparr>
                in case res of
                     ACQUIRE_ERROR e \<Rightarrow> Some (Raises e, self)
                   | ACQUIRE_OK \<Rightarrow> Some (Returns True, self\<lparr>lock_owner := tid\<rparr>)
                   | ACQUIRE_FAIL \<Rightarrow> Some (Returns False, self))))"

definition Lock_release :: "Lock \<Rightarrow> unit outcome \<times> Lock" where
  "Lock_release self =
     (if lock_owner self = 0 then (Raises ThreadError, self)
      else
        (case release_lock (lock_sem self) of
           Inl e \<Rightarrow> (Raises e, self)
         | Inr sem' \<Rightarrow> (Returns (), self\<lparr>lock_sem := sem', lock_owner := 0\<rparr>)))"

definition Lock_locked :: "Lock \<Rightarrow> bool" where
  "Lock_locked self = (lock_owner self \<noteq> 0)"

definition Lock_is_owned :: "Lock \<Rightarrow> long \<Rightarrow> bool" where
  "Lock_is_owned self tid = (lock_owner self = tid)"

definition Lock_release_save :: "Lock \<Rightarrow> saved_state outcome \<times> Lock" where
  "Lock_release_save self =
     (if lock_owner self = 0 then (Raises RuntimeError, self)
      else
        (let saved_state = PyLong (lock_owner self)
         in case release_lock (lock_sem self) of
              Inl e \<Rightarrow> (Raises e, self)
            | Inr sem' \<Rightarrow> (Returns saved_state, self\<lparr>lock_sem := sem', lock_owner := 0\<rparr>)))"

definition Lock_acquire_restore ::
  "Lock \<Rightarrow> saved_state \<Rightarrow> sys \<Rightarrow> (unit outcome \<times> Lock) option" where
  "Lock_acquire_restore self args os =
     (case args of
        PyPair c ow \<Rightarrow> Some (Raises TypeError, self)
      | PyLong owner \<Rightarrow>
          (case acquire_lock (lock_sem self) (- 1) os of
             None \<Rightarrow> None
           | Some (res, sem') \<Rightarrow>
               (let self = self\<lparr>lock_sem := sem'\<rparr>
                in case res of
                     ACQUIRE_ERROR e \<Rightarrow> Some (Raises e, self)
                   | ACQUIRE_FAIL \<Rightarrow> Some (Aborts AssertionFailed, self)
                   | ACQUIRE_OK \<Rightarrow>
                       if lock_owner self \<noteq> 0 then Some (Aborts AssertionFailed, self)
                       else Some (Returns (), self\<lparr>lock_owner := owner\<rparr>))))"

text \<open>The method table of the type: the Python name and the C function it calls.\<close>

definition Lock_methods :: "(string \<times> string) list" where
  "Lock_methods =
     [(''acquire'', ''Lock_acquire''),
      (''__enter__'', ''Lock_acquire''),
      (''release'', ''Lock_release''),
      (''__exit__'', ''Lock_release''),
      (''locked'', ''Lock_locked''),
      (''_is_owned'', ''Lock_is_owned''),
      (''_release_save'', ''Lock_release_save''),
      (''_acquire_restore'', ''Lock_acquire_restore'')]"

subsection \<open>RLock\<close>

record RLock =
  rlock_sem :: sem_t
  rlock_owner :: long
  rlock_count :: ulong

definition RLock_new :: "exn + RLock" where
  "RLock_new =
     (case sem_init 1 of
        Inl errno \<Rightarrow> Inl (OSError errno)
      | Inr s \<Rightarrow> Inr \<lparr>rlock_sem = s, rlock_owner = 0, rlock_count = 0\<rparr>)"

definition RLock_acquire ::
  "RLock \<Rightarrow> long \<Rightarrow> int \<Rightarrow> pyobject \<Rightarrow> sys \<Rightarrow> (bool outcome \<times> RLock) option" where
  "RLock_acquire self tid blocking obj os =
     (case acquire_parse_args blocking obj of
        Inl e \<Rightarrow> Some (Raises e, self)
      | Inr timeout \<Rightarrow>
          if rlock_count self > 0 \<and> rlock_owner self = tid then
            (let count = rlock_count self + 1
             in if count \<le> rlock_count self then Some (Raises OverflowError, self)
                else Some (Returns True, self\<lparr>rlock_count := count\<rparr>))
          else
            (case acquire_lock (rlock_sem self) timeout os of
               None \<Rightarrow> None
             | Some (res, sem') \<Rightarrow>
                 (let self = self\<lparr>rlock_sem := sem'\<rparr>
                  in case res of
                       ACQUIRE_ERROR e \<Rightarrow> Some (Raises e, self)
                     | ACQUIRE_OK \<Rightarrow>
                         if rlock_count self \<noteq> 0 then Some (Aborts AssertionFailed, self)
                         else Some (Returns True, self\<lparr>rlock_owner := tid, rlock_count := 1\<rparr>)
                     | ACQUIRE_FAIL \<Rightarrow> Some (Returns False, self))))"

definition RLock_release :: "RLock \<Rightarrow> long \<Rightarrow> unit outcome \<times> RLock" where
  "RLock_release self tid =
     (if rlock_count self = 0 \<or> rlock_owner self \<noteq> tid then (Raises RuntimeError, self)
      else if rlock_count self > 1 then (Returns (), self\<lparr>rlock_count := rlock_count self - 1\<rparr>)
      else if rlock_count self \<noteq> 1 then (Aborts AssertionFailed, self)
      else
        (case release_lock (rlock_sem self) of
           Inl e \<Rightarrow> (Raises e, self)
         | Inr sem' \<Rightarrow>
             (Returns (), self\<lparr>rlock_sem := sem', rlock_count := 0, rlock_owner := 0\<rparr>)))"

definition RLock_is_owned :: "RLock \<Rightarrow> long \<Rightarrow> bool" where
  "RLock_is_owned self tid = (rlock_count self > 0 \<and> rlock_owner self = tid)"

definition RLock_release_save :: "RLock \<Rightarrow> saved_state outcome \<times> RLock" where
  "RLock_release_save self =
     (if rlock_count self = 0 then (Raises RuntimeError, self)
      else
        (let saved_state = PyPair (rlock_count self) (rlock_owner self)
         in case release_lock (rlock_sem self) of
              Inl e \<Rightarrow> (Raises e, self)
            | Inr sem' \<Rightarrow>
                (Returns saved_state,
                 self\<lparr>rlock_sem := sem', rlock_count := 0, rlock_owner := 0\<rparr>)))"

definition RLock_acquire_restore ::
  "RLock \<Rightarrow> saved_state \<Rightarrow> sys \<Rightarrow> (unit outcome \<times> RLock) option" where
  "RLock_acquire_restore self args os =
     (case args of
        PyLong ow \<Rightarrow> Some (Raises TypeError, self)
      | PyPair count owner \<Rightarrow>
          (case acquire_lock (rlock_sem self) (- 1) os of
             None \<Rightarrow> None
           | Some (res, sem') \<Rightarrow>
               (let self = self\<lparr>rlock_sem := sem'\<rparr>
                in case res of
                     ACQUIRE_ERROR e \<Rightarrow> Some (Raises e, self)
                   | ACQUIRE_FAIL \<Rightarrow> Some (Aborts AssertionFailed, self)
                   | ACQUIRE_OK \<Rightarrow>
                       if rlock_owner self \<noteq> 0 \<or> rlock_count self \<noteq> 0
                       then Some (Aborts AssertionFailed, self)
                       else Some (Returns (), self\<lparr>rlock_owner := owner, rlock_count := count\<rparr>))))"

definition RLock_methods :: "(string \<times> string) list" where
  "RLock_methods =
     [(''acquire'', ''RLock_acquire''),
      (''__enter__'', ''RLock_acquire''),
      (''release'', ''RLock_release''),
      (''__exit__'', ''RLock_release''),
      (''_is_owned'', ''RLock_is_owned''),
      (''_release_save'', ''RLock_release_save''),
      (''_acquire_restore'', ''RLock_acquire_restore'')]"

text \<open>
  Attribute lookup on an instance: neither type has a dictionary, members or a
  \<^verbatim>\<open>tp_getattr\<close> slot, so a method name resolves through the method table alone.
\<close>

definition getattr :: "(string \<times> string) list \<Rightarrow> string \<Rightarrow> exn + string" where
  "getattr methods name =
     (case map_of methods name of None \<Rightarrow> Inl AttributeError | Some f \<Rightarrow> Inr f)"

subsection \<open>The wait queue\<close>

text \<open>
  A \<^verbatim>\<open>struct waiter *\<close> is \<^verbatim>\<open>NULL\<close>, the marker \<^verbatim>\<open>WAITER_UNUSED\<close> or the address of a
  waiter. The waiters live in the stack frames of the waiting threads; the heap maps
  the addresses in use to their contents. Reading or writing through any other pointer
  is a crash.
\<close>

datatype waiter_ptr = NULL | WAITER_UNUSED | Addr nat

record waiter =
  waiter_sem :: sem_t
  waiter_next :: waiter_ptr
  waiter_prev :: waiter_ptr

type_synonym heap = "(nat, waiter) mapping"

definition load :: "heap \<Rightarrow> waiter_ptr \<Rightarrow> crash + waiter" where
  "load h p =
     (case p of
        Addr a \<Rightarrow>
          (case Mapping.lookup h a of None \<Rightarrow> Inl InvalidPointer | Some w \<Rightarrow> Inr w)
      | _ \<Rightarrow> Inl InvalidPointer)"

definition store :: "heap \<Rightarrow> waiter_ptr \<Rightarrow> (waiter \<Rightarrow> waiter) \<Rightarrow> crash + heap" where
  "store h p f =
     (case p of
        Addr a \<Rightarrow>
          (case Mapping.lookup h a of
             None \<Rightarrow> Inl InvalidPointer
           | Some w \<Rightarrow> Inr (Mapping.update a (f w) h))
      | _ \<Rightarrow> Inl InvalidPointer)"

text \<open>The waiter is a local variable of the caller, at address \<open>a\<close>.\<close>

definition waiter_init :: "heap \<Rightarrow> nat \<Rightarrow> exn + heap" where
  "waiter_init h a =
     (case sem_init 0 of
        Inl errno \<Rightarrow> Inl (OSError errno)
      | Inr s \<Rightarrow>
          Inr (Mapping.update a
                 \<lparr>waiter_sem = s, waiter_next = WAITER_UNUSED, waiter_prev = WAITER_UNUSED\<rparr> h))"

definition waiter_destroy :: "heap \<Rightarrow> waiter_ptr \<Rightarrow> crash + heap" where
  "waiter_destroy h waiter =
     (case load h waiter of
        Inl c \<Rightarrow> Inl c
      | Inr w \<Rightarrow>
          if waiter_next w = WAITER_UNUSED \<and> waiter_prev w = WAITER_UNUSED then Inr h
          else Inl AssertionFailed)"

record waitq =
  waitq_first :: waiter_ptr
  waitq_last :: waiter_ptr
  waitq_count :: int

definition waitq_init :: waitq where
  "waitq_init = \<lparr>waitq_first = NULL, waitq_last = NULL, waitq_count = 0\<rparr>"

definition waitq_append :: "heap \<Rightarrow> waitq \<Rightarrow> waiter_ptr \<Rightarrow> crash + heap \<times> waitq" where
  "waitq_append h waitq waiter =
     (case load h waiter of
        Inl c \<Rightarrow> Inl c
      | Inr w \<Rightarrow>
          if \<not> (waiter_next w = WAITER_UNUSED \<and> waiter_prev w = WAITER_UNUSED)
          then Inl AssertionFailed
          else
            (case store h waiter
                    (\<lambda>w. w\<lparr>waiter_next := NULL, waiter_prev := waitq_last waitq\<rparr>) of
               Inl c \<Rightarrow> Inl c
             | Inr h \<Rightarrow>
                 (case (if waitq_last waitq \<noteq> NULL
                        then (case store h (waitq_last waitq) (\<lambda>w. w\<lparr>waiter_next := waiter\<rparr>) of
                                Inl c \<Rightarrow> Inl c
                              | Inr h \<Rightarrow> Inr (h, waitq))
                        else Inr (h, waitq\<lparr>waitq_first := waiter\<rparr>)) of
                    Inl c \<Rightarrow> Inl c
                  | Inr (h, waitq) \<Rightarrow>
                      Inr (h, waitq\<lparr>waitq_last := waiter,
                                    waitq_count := s32 (waitq_count waitq + 1)\<rparr>))))"

text \<open>Each access to \<^verbatim>\<open>waiter->next\<close> and \<^verbatim>\<open>waiter->prev\<close> reads the heap as it is then.\<close>

definition waitq_remove :: "heap \<Rightarrow> waitq \<Rightarrow> waiter_ptr \<Rightarrow> crash + heap \<times> waitq" where
  "waitq_remove h waitq waiter =
     (case load h waiter of
        Inl c \<Rightarrow> Inl c
      | Inr w \<Rightarrow>
          if waiter_next w = WAITER_UNUSED then Inr (h, waitq)
          else
            (case (if waiter_prev w \<noteq> NULL
                   then (case store h (waiter_prev w) (\<lambda>p. p\<lparr>waiter_next := waiter_next w\<rparr>) of
                           Inl c \<Rightarrow> Inl c
                         | Inr h \<Rightarrow> Inr (h, waitq))
                   else Inr (h, waitq\<lparr>waitq_first := waiter_next w\<rparr>)) of
               Inl c \<Rightarrow> Inl c
             | Inr (h, waitq) \<Rightarrow>
                 (case load h waiter of
                    Inl c \<Rightarrow> Inl c
                  | Inr w \<Rightarrow>
                      (case (if waiter_next w \<noteq> NULL
                             then (case store h (waiter_next w)
                                          (\<lambda>n. n\<lparr>waiter_prev := waiter_prev w\<rparr>) of
                                     Inl c \<Rightarrow> Inl c
                                   | Inr h \<Rightarrow> Inr (h, waitq))
                             else Inr (h, waitq\<lparr>waitq_last := waiter_prev w\<rparr>)) of
                         Inl c \<Rightarrow> Inl c
                       | Inr (h, waitq) \<Rightarrow>
                           (case store h waiter
                                   (\<lambda>w. w\<lparr>waiter_next := WAITER_UNUSED,
                                           waiter_prev := WAITER_UNUSED\<rparr>) of
                              Inl c \<Rightarrow> Inl c
                            | Inr h \<Rightarrow>
                                (let waitq = waitq\<lparr>waitq_count := s32 (waitq_count waitq - 1)\<rparr>
                                 in if waitq_count waitq \<ge> 0 then Inr (h, waitq)
                                    else Inl AssertionFailed))))))"

subsection \<open>Condition\<close>

text \<open>
  The lock of a Condition is a Lock or an RLock; the methods \<^verbatim>\<open>_is_owned\<close>,
  \<^verbatim>\<open>_release_save\<close> and \<^verbatim>\<open>_acquire_restore\<close> that \<^verbatim>\<open>Condition_init\<close> binds are those
  of the lock's type.
\<close>

datatype lockobj = LockObj Lock | RLockObj RLock

record Condition =
  cond_lock :: lockobj
  cond_waiters :: waitq

definition Condition_is_owned_internal :: "Condition \<Rightarrow> long \<Rightarrow> bool" where
  "Condition_is_owned_internal self tid =
     (case cond_lock self of
        LockObj l \<Rightarrow> Lock_is_owned l tid
      | RLockObj r \<Rightarrow> RLock_is_owned r tid)"

definition Condition_release_save :: "Condition \<Rightarrow> saved_state outcome \<times> Condition" where
  "Condition_release_save self =
     (case cond_lock self of
        LockObj l \<Rightarrow>
          (case Lock_release_save l of (r, l') \<Rightarrow> (r, self\<lparr>cond_lock := LockObj l'\<rparr>))
      | RLockObj l \<Rightarrow>
          (case RLock_release_save l of (r, l') \<Rightarrow> (r, self\<lparr>cond_lock := RLockObj l'\<rparr>)))"

definition Condition_acquire_restore ::
  "Condition \<Rightarrow> saved_state \<Rightarrow> sys \<Rightarrow> (unit outcome \<times> Condition) option" where
  "Condition_acquire_restore self args os =
     (case cond_lock self of
        LockObj l \<Rightarrow>
          (case Lock_acquire_restore l args os of
             None \<Rightarrow> None
           | Some (r, l') \<Rightarrow> Some (r, self\<lparr>cond_lock := LockObj l'\<rparr>))
      | RLockObj l \<Rightarrow>
          (case RLock_acquire_restore l args os of
             None \<Rightarrow> None
           | Some (r, l') \<Rightarrow> Some (r, self\<lparr>cond_lock := RLockObj l'\<rparr>)))"

text \<open>
  What a call of \<^verbatim>\<open>wait\<close> meets outside its own thread: the clock and the results of
  the blocking calls on the private semaphore, the shared memory as the other threads
  leave it while the caller is parked there, and the clock and results for taking the
  lock again.
\<close>

record wait_env =
  env_wait :: sys
  env_others :: "heap \<times> Condition \<Rightarrow> heap \<times> Condition"
  env_lock :: sys

definition Condition_wait_released ::
  "heap \<Rightarrow> Condition \<Rightarrow> nat \<Rightarrow> real \<Rightarrow> wait_env
     \<Rightarrow> ((crash + acquire_result) \<times> heap \<times> Condition) option" where
  "Condition_wait_released h self a timeout env =
     (case Condition_release_save self of
        (Raises e, self) \<Rightarrow> Some (Inr (ACQUIRE_ERROR e), h, self)
      | (Aborts c, self) \<Rightarrow> Some (Inl c, h, self)
      | (Returns saved_state, self) \<Rightarrow>
          (case Mapping.lookup h a of
             None \<Rightarrow> Some (Inl InvalidPointer, h, self)
           | Some w \<Rightarrow>
               (case acquire_lock (waiter_sem w) timeout (env_wait env) of
                  None \<Rightarrow> None
                | Some (res, sem') \<Rightarrow>
                    (let (h, self) =
                           (if sem_trywait (waiter_sem w) = Inl EAGAIN \<and> timeout \<noteq> 0
                            then env_others env (h, self)
                            else (Mapping.update a (w\<lparr>waiter_sem := sem'\<rparr>) h, self))
                     in case Condition_acquire_restore self saved_state (env_lock env) of
                          None \<Rightarrow> None
                        | Some (Returns u, self) \<Rightarrow> Some (Inr res, h, self)
                        | Some (Raises e, self) \<Rightarrow> Some (Inr (ACQUIRE_ERROR e), h, self)
                        | Some (Aborts c, self) \<Rightarrow> Some (Inl c, h, self)))))"

text \<open>
  The loop of \<^verbatim>\<open>Condition_notify_waiters\<close>. Since \<open>i < count \<le> INT_MAX\<close> the increment
  of \<open>i\<close> does not overflow. The last component lists, oldest first, the waiters whose
  semaphore the loop has posted.
\<close>

function notify_loop ::
  "int \<Rightarrow> int \<Rightarrow> heap \<Rightarrow> waitq \<Rightarrow> waiter_ptr list
     \<Rightarrow> unit outcome \<times> heap \<times> waitq \<times> waiter_ptr list" where
  "notify_loop i count h waitq posted =
     (if i < count \<and> waitq_first waitq \<noteq> NULL then
        (let waiter = waitq_first waitq
         in case load h waiter of
              Inl c \<Rightarrow> (Aborts c, h, waitq, posted)
            | Inr w \<Rightarrow>
                (case release_lock (waiter_sem w) of
                   Inl e \<Rightarrow> (Raises e, h, waitq, posted)
                 | Inr sem' \<Rightarrow>
                     (case store h waiter (\<lambda>w. w\<lparr>waiter_sem := sem'\<rparr>) of
                        Inl c \<Rightarrow> (Aborts c, h, waitq, posted)
                      | Inr h' \<Rightarrow>
                          (case waitq_remove h' waitq waiter of
                             Inl c \<Rightarrow> (Aborts c, h', waitq, posted @ [waiter])
                           | Inr (h'', waitq') \<Rightarrow>
                               notify_loop (i + 1) count h'' waitq' (posted @ [waiter])))))
      else (Returns (), h, waitq, posted))"
  by pat_completeness auto
termination
  by (relation "measure (\<lambda>(i, count, h, waitq, posted). nat (count - i))") auto

declare notify_loop.simps [simp del]

definition Condition_notify_waiters ::
  "heap \<Rightarrow> Condition \<Rightarrow> long \<Rightarrow> int
     \<Rightarrow> unit outcome \<times> heap \<times> Condition \<times> waiter_ptr list" where
  "Condition_notify_waiters h self tid count =
     (if \<not> Condition_is_owned_internal self tid then (Raises RuntimeError, h, self, [])
      else
        (case notify_loop 0 count h (cond_waiters self) [] of
           (r, h', waitq', posted) \<Rightarrow> (r, h', self\<lparr>cond_waiters := waitq'\<rparr>, posted)))"

definition Condition_wait_parse_args :: "pyobject \<Rightarrow> exn + real" where
  "Condition_wait_parse_args obj = parse_timeout obj"

text \<open>\<open>a\<close> is the address of the local variable \<^verbatim>\<open>waiter\<close> of this call.\<close>

definition Condition_wait ::
  "heap \<Rightarrow> Condition \<Rightarrow> long \<Rightarrow> pyobject \<Rightarrow> nat \<Rightarrow> wait_env
     \<Rightarrow> (bool outcome \<times> heap \<times> Condition) option" where
  "Condition_wait h self tid obj a env =
     (case Condition_wait_parse_args obj of
        Inl e \<Rightarrow> Some (Raises e, h, self)
      | Inr timeout \<Rightarrow>
          if \<not> Condition_is_owned_internal self tid then Some (Raises RuntimeError, h, self)
          else
            (case waiter_init h a of
               Inl e \<Rightarrow> Some (Raises e, h, self)
             | Inr h \<Rightarrow>
                 (case waitq_append h (cond_waiters self) (Addr a) of
                    Inl c \<Rightarrow> Some (Aborts c, h, self)
                  | Inr (h, q) \<Rightarrow>
                      (case Condition_wait_released h (self\<lparr>cond_waiters := q\<rparr>) a timeout env of
                         None \<Rightarrow> None
                       | Some (Inl c, h, self) \<Rightarrow> Some (Aborts c, h, self)
                       | Some (Inr res, h, self) \<Rightarrow>
                           (case (if res \<noteq> ACQUIRE_OK
                                  then waitq_remove h (cond_waiters self) (Addr a)
                                  else Inr (h, cond_waiters self)) of
                              Inl c \<Rightarrow> Some (Aborts c, h, self)
                            | Inr (h, q) \<Rightarrow>
                                (case waiter_destroy h (Addr a) of
                                   Inl c \<Rightarrow> Some (Aborts c, h, self\<lparr>cond_waiters := q\<rparr>)
                                 | Inr h \<Rightarrow>
                                     (let h = Mapping.delete a h;
                                          self = self\<lparr>cond_waiters := q\<rparr>
                                      in case res of
                                           ACQUIRE_ERROR e \<Rightarrow> Some (Raises e, h, self)
                                         | ACQUIRE_OK \<Rightarrow> Some (Returns True, h, self)
                                         | ACQUIRE_FAIL \<Rightarrow> Some (Returns False, h, self))))))))"

text \<open>
  \<^verbatim>\<open>notify(n=1)\<close>: the argument is a Python integer, which the parser stores into a C
  \<^verbatim>\<open>int\<close> or rejects when it does not fit.
\<close>

definition Condition_notify ::
  "heap \<Rightarrow> Condition \<Rightarrow> long \<Rightarrow> int option
     \<Rightarrow> unit outcome \<times> heap \<times> Condition \<times> waiter_ptr list" where
  "Condition_notify h self tid args =
     (case args of
        None \<Rightarrow> Condition_notify_waiters h self tid 1
      | Some n \<Rightarrow>
          if n < - INT_MAX - 1 \<or> INT_MAX < n then (Raises OverflowError, h, self, [])
          else Condition_notify_waiters h self tid n)"

definition Condition_notify_all ::
  "heap \<Rightarrow> Condition \<Rightarrow> long \<Rightarrow> unit outcome \<times> heap \<times> Condition \<times> waiter_ptr list" where
  "Condition_notify_all h self tid =
     Condition_notify_waiters h self tid (waitq_count (cond_waiters self))"

subsection \<open>Properties used in the statements\<close>

text \<open>
  \<open>dll h p xs n\<close>: the waiters at the addresses \<open>xs\<close> are chained in this order through
  their \<^verbatim>\<open>next\<close> and \<^verbatim>\<open>prev\<close> fields, the first pointing back to \<open>p\<close> and the last
  forward to \<open>n\<close>.
\<close>

fun dll :: "heap \<Rightarrow> waiter_ptr \<Rightarrow> nat list \<Rightarrow> waiter_ptr \<Rightarrow> bool" where
  "dll h p [] n = True"
| "dll h p (a # as) n =
     (case Mapping.lookup h a of
        None \<Rightarrow> False
      | Some w \<Rightarrow>
          waiter_prev w = p \<and>
          waiter_next w = (case as of [] \<Rightarrow> n | b # bs \<Rightarrow> Addr b) \<and>
          dll h (Addr a) as n)"

text \<open>
  The invariant of the wait queue, for the list \<open>xs\<close> of linked waiters, oldest first:
  they form a doubly-linked list from \<^verbatim>\<open>first\<close> to \<^verbatim>\<open>last\<close>, \<^verbatim>\<open>count\<close> is their number
  (and so fits the C \<^verbatim>\<open>int\<close>), and every other waiter has both links unused.
\<close>

definition unlinked :: "waiter \<Rightarrow> bool" where
  "unlinked w = (waiter_next w = WAITER_UNUSED \<and> waiter_prev w = WAITER_UNUSED)"

definition waitq_inv :: "heap \<Rightarrow> waitq \<Rightarrow> nat list \<Rightarrow> bool" where
  "waitq_inv h waitq xs =
     (distinct xs \<and>
      dll h NULL xs NULL \<and>
      waitq_first waitq = (case xs of [] \<Rightarrow> NULL | a # as \<Rightarrow> Addr a) \<and>
      waitq_last waitq = (if xs = [] then NULL else Addr (last xs)) \<and>
      waitq_count waitq = int (length xs) \<and>
      int (length xs) \<le> INT_MAX \<and>
      (\<forall>a \<in> Mapping.keys h. a \<notin> set xs \<longrightarrow>
         (case Mapping.lookup h a of None \<Rightarrow> True | Some w \<Rightarrow> unlinked w)))"

text \<open>
  \<open>posted_to S h h'\<close>: the heaps \<open>h\<close> and \<open>h'\<close> hold the same waiters, and the
  semaphore of a waiter in \<open>S\<close> has been posted once between \<open>h\<close> and \<open>h'\<close>, that
  of any other waiter not at all.
\<close>

definition posted_to :: "nat set \<Rightarrow> heap \<Rightarrow> heap \<Rightarrow> bool" where
  "posted_to S h h' =
     (Mapping.keys h' = Mapping.keys h \<and>
      (\<forall>b \<in> Mapping.keys h.
         map_option waiter_sem (Mapping.lookup h' b) =
         map_option (\<lambda>w. if b \<in> S then waiter_sem w + 1 else waiter_sem w)
           (Mapping.lookup h b)))"

text \<open>
  \<open>n\<close> successive calls of \<^verbatim>\<open>acquire()\<close>, each returning true, and \<open>n\<close> successive
  calls of \<^verbatim>\<open>release()\<close>, each returning normally, by the thread \<open>tid\<close>.
\<close>

fun acquire_n :: "nat \<Rightarrow> long \<Rightarrow> sys \<Rightarrow> RLock \<Rightarrow> RLock option" where
  "acquire_n 0 tid os l = Some l"
| "acquire_n (Suc n) tid os l =
     (case RLock_acquire l tid 1 Py_None os of
        Some (Returns True, l') \<Rightarrow> acquire_n n tid os l'
      | _ \<Rightarrow> None)"

fun release_n :: "nat \<Rightarrow> long \<Rightarrow> RLock \<Rightarrow> RLock option" where
  "release_n 0 tid l = Some l"
| "release_n (Suc n) tid l =
     (case RLock_release l tid of
        (Returns u, l') \<Rightarrow> release_n n tid l'
      | _ \<Rightarrow> None)"

section \<open>Deadline arithmetic\<close>

lemma s64_id: "- 9223372036854775808 \<le> x \<Longrightarrow> x \<le> 9223372036854775807 \<Longrightarrow> s64 x = x"
  by (simp add: s64_def)

lemma double_to_long_pos:
  "0 \<le> x \<Longrightarrow> double_to_long x = (if \<lfloor>x\<rfloor> \<le> LONG_MAX then \<lfloor>x\<rfloor> else LONG_MIN)"
  by (auto simp add: double_to_long_def Let_def LONG_MIN_def LONG_MAX_def)

lemma sec_saturate:
  assumes "0 \<le> timeout" "0 \<le> sec" "sec \<le> LONG_MAX"
  shows "(if sec \<le> s64 (INT_MAX - double_to_long timeout)
          then s64 (sec + double_to_long timeout) else INT_MAX)
         = min INT_MAX (sec + \<lfloor>timeout\<rfloor>)"
proof (cases "\<lfloor>timeout\<rfloor> \<le> LONG_MAX")
  case True
  have nn: "0 \<le> \<lfloor>timeout\<rfloor>" using assms(1) by simp
  have d: "double_to_long timeout = \<lfloor>timeout\<rfloor>"
    using True assms(1) by (simp add: double_to_long_pos)
  have a: "s64 (INT_MAX - \<lfloor>timeout\<rfloor>) = INT_MAX - \<lfloor>timeout\<rfloor>"
    using True nn unfolding INT_MAX_def LONG_MAX_def by (intro s64_id) linarith+
  show ?thesis
  proof (cases "sec \<le> INT_MAX - \<lfloor>timeout\<rfloor>")
    case le: True
    have "s64 (sec + \<lfloor>timeout\<rfloor>) = sec + \<lfloor>timeout\<rfloor>"
      using le nn assms(2) unfolding INT_MAX_def by (intro s64_id) linarith+
    with le show ?thesis by (simp add: d a)
  next
    case False
    then show ?thesis by (simp add: d a)
  qed
next
  case False
  have d: "double_to_long timeout = LONG_MIN"
    using False assms(1) by (simp add: double_to_long_pos)
  have "s64 (INT_MAX - LONG_MIN) < 0"
    by (simp add: s64_def INT_MAX_def LONG_MIN_def)
  with assms(2) have "\<not> sec \<le> s64 (INT_MAX - LONG_MIN)" by simp
  moreover have "INT_MAX \<le> sec + \<lfloor>timeout\<rfloor>"
    using False assms(2) unfolding INT_MAX_def LONG_MAX_def by linarith
  ultimately show ?thesis by (simp add: d)
qed

lemma deadline_sec:
  assumes "0 \<le> timeout" "0 \<le> tv_sec now" "tv_sec now \<le> LONG_MAX"
  shows "ts_sec (deadline_from_timeout timeout now) = min INT_MAX (tv_sec now + \<lfloor>timeout\<rfloor>)
       \<or> ts_sec (deadline_from_timeout timeout now) = min INT_MAX (tv_sec now + \<lfloor>timeout\<rfloor> + 1)"
proof -
  let ?s = "min INT_MAX (tv_sec now + \<lfloor>timeout\<rfloor>)"
  have s0: "0 \<le> ?s" using assms by (simp add: INT_MAX_def)
  have s1: "s64 (?s + 1) = ?s + 1"
    by (rule s64_id) (use s0 in \<open>simp_all add: INT_MAX_def\<close>)
  show ?thesis
  proof (cases "tv_sec now \<le> s64 (INT_MAX - double_to_long timeout)")
    case True
    with sec_saturate [OF assms] have "s64 (tv_sec now + double_to_long timeout) = ?s"
      by simp
    with True s1 show ?thesis
      unfolding deadline_from_timeout_def Let_def by (auto simp: min_def)
  next
    case False
    with sec_saturate [OF assms] have "INT_MAX = ?s"
      by simp
    with False show ?thesis
      unfolding deadline_from_timeout_def Let_def by (auto simp: min_def)
  qed
qed

text \<open>
  Claim C8. For a positive timeout and a wall-clock time after the epoch, the seconds of
  the deadline never exceed \<^verbatim>\<open>INT_MAX\<close> and never fall behind the current second: they
  are the sum of the current seconds, the whole seconds of the timeout and the carry,
  cut off at \<^verbatim>\<open>INT_MAX\<close>. Whenever the sum reaches or exceeds \<^verbatim>\<open>INT_MAX\<close> the field is
  exactly \<^verbatim>\<open>INT_MAX\<close>; this includes timeouts beyond the range of \<^verbatim>\<open>long\<close>, such as
  \<open>10 ^ 100\<close>.
\<close>

theorem deadline_seconds_saturate:
  assumes "0 < timeout" and "0 \<le> tv_sec now" and "tv_sec now \<le> LONG_MAX"
  shows "ts_sec (deadline_from_timeout timeout now) \<le> INT_MAX \<and>
         (INT_MAX \<le> tv_sec now + \<lfloor>timeout\<rfloor> \<longrightarrow>
            ts_sec (deadline_from_timeout timeout now) = INT_MAX) \<and>
         (tv_sec now \<le> INT_MAX \<longrightarrow> tv_sec now \<le> ts_sec (deadline_from_timeout timeout now)) \<and>
         (ts_sec (deadline_from_timeout timeout now) = min INT_MAX (tv_sec now + \<lfloor>timeout\<rfloor>) \<or>
          ts_sec (deadline_from_timeout timeout now) = min INT_MAX (tv_sec now + \<lfloor>timeout\<rfloor> + 1))"
proof -
  have nn: "0 \<le> \<lfloor>timeout\<rfloor>" using assms(1) by simp
  have d: "ts_sec (deadline_from_timeout timeout now) = min INT_MAX (tv_sec now + \<lfloor>timeout\<rfloor>) \<or>
      ts_sec (deadline_from_timeout timeout now) = min INT_MAX (tv_sec now + \<lfloor>timeout\<rfloor> + 1)"
    using assms by (intro deadline_sec) simp_all
  then show ?thesis using nn by (auto simp: min_def)
qed

theorem deadline_seconds_saturate_witness:
  "(0::real) < 10 ^ 100 \<and>
   ts_sec (deadline_from_timeout (10 ^ 100) \<lparr>tv_sec = 1700000000, tv_usec = 250000\<rparr>) = INT_MAX \<and>
   ts_sec (deadline_from_timeout (3 / 2) \<lparr>tv_sec = 2147483646, tv_usec = 600000\<rparr>) = INT_MAX"
  using deadline_seconds_saturate [of "10 ^ 100" "\<lparr>tv_sec = 1700000000, tv_usec = 250000\<rparr>"]
    deadline_seconds_saturate [of "3 / 2" "\<lparr>tv_sec = 2147483646, tv_usec = 600000\<rparr>"]
  by (simp add: LONG_MAX_def INT_MAX_def)

text \<open>
  For a timeout within the range of \<^verbatim>\<open>long\<close> the carry step brings every sum of
  microseconds below one second, except the sum of exactly 1,000,000.
\<close>

lemma timeout_usec_range:
  assumes "0 \<le> timeout" and "\<lfloor>timeout\<rfloor> \<le> LONG_MAX"
  shows "double_to_long ((timeout - real_of_int (double_to_long timeout)) * real_of_int USEC_PER_SEC)
           = \<lfloor>(timeout - real_of_int \<lfloor>timeout\<rfloor>) * 1000000\<rfloor>"
    and "0 \<le> \<lfloor>(timeout - real_of_int \<lfloor>timeout\<rfloor>) * 1000000\<rfloor>"
    and "\<lfloor>(timeout - real_of_int \<lfloor>timeout\<rfloor>) * 1000000\<rfloor> < 1000000"
proof -
  let ?f = "timeout - real_of_int \<lfloor>timeout\<rfloor>"
  have d: "double_to_long timeout = \<lfloor>timeout\<rfloor>"
    using assms by (simp add: double_to_long_pos)
  have f0: "0 \<le> ?f" and f1: "?f < 1" by linarith+
  have m0: "0 \<le> ?f * 1000000" using f0 by simp
  have m1: "?f * 1000000 < 1000000" using f1 by simp
  show lo: "0 \<le> \<lfloor>?f * 1000000\<rfloor>" using m0 by simp
  show hi: "\<lfloor>?f * 1000000\<rfloor> < 1000000" using m1 by (simp add: floor_less_iff)
  have "double_to_long (?f * 1000000) = \<lfloor>?f * 1000000\<rfloor>"
    using m0 hi by (simp add: double_to_long_pos LONG_MAX_def)
  then show "double_to_long ((timeout - real_of_int (double_to_long timeout)) * real_of_int USEC_PER_SEC)
           = \<lfloor>?f * 1000000\<rfloor>"
    by (simp add: d USEC_PER_SEC_def)
qed

lemma deadline_nsec_valid_iff:
  assumes "0 \<le> timeout" and "\<lfloor>timeout\<rfloor> \<le> LONG_MAX"
    and "0 \<le> tv_usec now" and "tv_usec now < 1000000"
  shows "ts_nsec (deadline_from_timeout timeout now) < 1000000000 \<longleftrightarrow>
         tv_usec now + \<lfloor>(timeout - real_of_int \<lfloor>timeout\<rfloor>) * 1000000\<rfloor> \<noteq> 1000000"
proof -
  define u where "u = \<lfloor>(timeout - real_of_int \<lfloor>timeout\<rfloor>) * 1000000\<rfloor>"
  define v where "v = tv_usec now + u"
  have tu: "double_to_long ((timeout - real_of_int (double_to_long timeout)) * real_of_int USEC_PER_SEC) = u"
    and u0: "0 \<le> u" and u1: "u < 1000000"
    using timeout_usec_range [OF assms(1,2)] by (simp_all add: u_def)
  have v0: "0 \<le> v" and v1: "v < 2000000"
    using assms(3,4) u0 u1 by (simp_all add: v_def)
  have s: "s64 (tv_usec now + u) = v"
    unfolding v_def [symmetric] using v0 v1 by (intro s64_id) linarith+
  have n: "ts_nsec (deadline_from_timeout timeout now)
      = s64 ((if 1000000 < v then s64 (v - 1000000) else v) * 1000)"
    unfolding deadline_from_timeout_def Let_def tu
    by (simp add: NSEC_PER_USEC_def s)
  have a: "s64 (v - 1000000) = v - 1000000"
    using v0 v1 by (intro s64_id) linarith+
  have b: "s64 ((v - 1000000) * 1000) = (v - 1000000) * 1000"
    using v0 v1 by (intro s64_id) (simp_all add: algebra_simps)
  have c: "s64 (v * 1000) = v * 1000"
    using v0 v1 by (intro s64_id) (simp_all add: algebra_simps)
  have "ts_nsec (deadline_from_timeout timeout now) < 1000000000 \<longleftrightarrow> v \<noteq> 1000000"
  proof (cases "1000000 < v")
    case True
    then have "ts_nsec (deadline_from_timeout timeout now) = (v - 1000000) * 1000"
      by (simp only: n a b if_True)
    then show ?thesis using True v1 by simp
  next
    case False
    then have "ts_nsec (deadline_from_timeout timeout now) = v * 1000"
      by (simp only: n c if_False)
    then show ?thesis using False by auto
  qed
  then show ?thesis by (simp add: v_def u_def)
qed

lemma double_to_long_half: "double_to_long (1 / 2) = 0"
  by (simp add: double_to_long_def Let_def LONG_MIN_def LONG_MAX_def)

lemma double_to_long_half_usec:
  "double_to_long ((1 / 2 - real_of_int 0) * real_of_int USEC_PER_SEC) = 500000"
  by (simp add: double_to_long_def Let_def LONG_MIN_def LONG_MAX_def USEC_PER_SEC_def)

text \<open>
  Claim C10. The claim asks for a nanosecond field below 1,000,000,000 also when the
  microseconds of the current time and of the timeout add up to exactly 1,000,000. The
  carry step tests \<^verbatim>\<open>tv_usec > 1000000\<close>, so at that sum no carry is taken: with the
  clock at 100 s 500000 us and a timeout of half a second the nanosecond field is
  1,000,000,000.
\<close>

theorem deadline_nanoseconds_at_boundary:
  "ts_nsec (deadline_from_timeout (1 / 2) \<lparr>tv_sec = 100, tv_usec = 500000\<rparr>) = 1000000000"
  unfolding deadline_from_timeout_def Let_def double_to_long_half double_to_long_half_usec
  by (simp add: s64_def INT_MAX_def NSEC_PER_USEC_def)

text \<open>
  With that deadline a timed \<^verbatim>\<open>acquire\<close> of a held lock does not wait:
  \<^verbatim>\<open>sem_timedwait\<close> rejects the deadline and the call raises \<^verbatim>\<open>OSError\<close>.
\<close>

lemma acquire_at_boundary_fails:
  "Lock_acquire \<lparr>lock_sem = 0, lock_owner = 7\<rparr> 8 1 (PyFloat (1 / 2))
       \<lparr>sys_now = \<lparr>tv_sec = 100, tv_usec = 500000\<rparr>, sys_answers = [Posted]\<rparr>
     = Some (Raises (OSError EINVAL), \<lparr>lock_sem = 0, lock_owner = 7\<rparr>)"
proof -
  have p: "acquire_parse_args 1 (PyFloat (1 / 2)) = Inr (1 / 2)"
    by (simp add: acquire_parse_args_def parse_timeout_def UNLIMITED_def)
  have d: "ts_nsec (deadline_from_timeout (1 / 2) \<lparr>tv_sec = 100, tv_usec = 500000\<rparr>) = 1000000000"
    unfolding deadline_from_timeout_def Let_def double_to_long_half double_to_long_half_usec
    by (simp add: s64_def INT_MAX_def NSEC_PER_USEC_def)
  have b: "blocking_wait (1 / 2)
      (deadline_from_timeout (1 / 2) \<lparr>tv_sec = 100, tv_usec = 500000\<rparr>) [Posted]
      = Some (Failed EINVAL)"
    by (simp add: sem_timedwait_def d Let_def EINVAL_def EINTR_def)
  have "acquire_lock 0 (1 / 2)
      \<lparr>sys_now = \<lparr>tv_sec = 100, tv_usec = 500000\<rparr>, sys_answers = [Posted]\<rparr>
      = Some (ACQUIRE_ERROR (OSError EINVAL), 0)"
    by (simp add: acquire_lock_def sem_trywait_def b EINVAL_def ETIMEDOUT_def
        del: blocking_wait.simps)
  then show ?thesis
    by (simp add: Lock_acquire_def p)
qed

section \<open>Argument errors of acquire\<close>

lemma acquire_parse_args_negative:
  "v < 0 \<Longrightarrow> v \<noteq> - 1 \<Longrightarrow> acquire_parse_args blocking (PyFloat v) = Inl ValueError"
  by (simp add: acquire_parse_args_def parse_timeout_def UNLIMITED_def)

lemma acquire_parse_args_nonblocking:
  "v \<noteq> - 1 \<Longrightarrow> acquire_parse_args 0 (PyFloat v) = Inl ValueError"
  by (simp add: acquire_parse_args_def parse_timeout_def UNLIMITED_def)

text \<open>
  Claim C9. \<^verbatim>\<open>acquire\<close> of Lock and of RLock raises \<^verbatim>\<open>ValueError\<close> for a negative
  timeout other than -1, whatever \<open>blocking\<close> is, and for a non-blocking call with any
  timeout other than -1; in both cases the object is returned as it was: semaphore,
  owner and count are untouched.
\<close>

theorem acquire_rejects_bad_arguments:
  "(v < 0 \<and> v \<noteq> - 1 \<longrightarrow>
      Lock_acquire l tid blocking (PyFloat v) os = Some (Raises ValueError, l) \<and>
      RLock_acquire r tid blocking (PyFloat v) os = Some (Raises ValueError, r)) \<and>
   (v \<noteq> - 1 \<longrightarrow>
      Lock_acquire l tid 0 (PyFloat v) os = Some (Raises ValueError, l) \<and>
      RLock_acquire r tid 0 (PyFloat v) os = Some (Raises ValueError, r))"
  by (simp add: Lock_acquire_def RLock_acquire_def
      acquire_parse_args_negative acquire_parse_args_nonblocking)

theorem acquire_rejects_bad_arguments_witness:
  "let os = \<lparr>sys_now = \<lparr>tv_sec = 0, tv_usec = 0\<rparr>, sys_answers = []\<rparr> in
   Lock_acquire \<lparr>lock_sem = 1, lock_owner = 0\<rparr> 7 1 (PyFloat (- 5)) os
     = Some (Raises ValueError, \<lparr>lock_sem = 1, lock_owner = 0\<rparr>) \<and>
   RLock_acquire \<lparr>rlock_sem = 0, rlock_owner = 7, rlock_count = 2\<rparr> 7 1 (PyFloat (- 5)) os
     = Some (Raises ValueError, \<lparr>rlock_sem = 0, rlock_owner = 7, rlock_count = 2\<rparr>) \<and>
   Lock_acquire \<lparr>lock_sem = 1, lock_owner = 0\<rparr> 7 0 (PyFloat 3) os
     = Some (Raises ValueError, \<lparr>lock_sem = 1, lock_owner = 0\<rparr>) \<and>
   RLock_acquire \<lparr>rlock_sem = 0, rlock_owner = 7, rlock_count = 2\<rparr> 7 0 (PyFloat 3) os
     = Some (Raises ValueError, \<lparr>rlock_sem = 0, rlock_owner = 7, rlock_count = 2\<rparr>)"
  using acquire_rejects_bad_arguments [of "- 5" "\<lparr>lock_sem = 1, lock_owner = 0\<rparr>" 7 1
      "\<lparr>sys_now = \<lparr>tv_sec = 0, tv_usec = 0\<rparr>, sys_answers = []\<rparr>"
      "\<lparr>rlock_sem = 0, rlock_owner = 7, rlock_count = 2\<rparr>"]
    acquire_rejects_bad_arguments [of 3 "\<lparr>lock_sem = 1, lock_owner = 0\<rparr>" 7 1
      "\<lparr>sys_now = \<lparr>tv_sec = 0, tv_usec = 0\<rparr>, sys_answers = []\<rparr>"
      "\<lparr>rlock_sem = 0, rlock_owner = 7, rlock_count = 2\<rparr>"]
  by (simp add: Let_def)

section \<open>RLock: re-entrant acquire\<close>

text \<open>
  Claim C5. When the calling thread owns the RLock with a positive count and the
  arguments of the call are well-formed, \<^verbatim>\<open>acquire\<close> returns true and adds one to the
  count, leaving semaphore and owner as they were, whatever the operating system would
  answer to a blocking call; when the count is already the largest \<^verbatim>\<open>unsigned long\<close>
  it raises \<^verbatim>\<open>OverflowError\<close> and the lock is unchanged.
\<close>

theorem RLock_acquire_reentrant:
  assumes "rlock_owner r = tid" and "rlock_count r > 0"
    and "acquire_parse_args blocking obj = Inr timeout"
  shows "(unat (rlock_count r) + 1 < 2 ^ 64 \<longrightarrow>
            RLock_acquire r tid blocking obj os
              = Some (Returns True, r\<lparr>rlock_count := rlock_count r + 1\<rparr>) \<and>
            unat (rlock_count r + 1) = unat (rlock_count r) + 1) \<and>
         (unat (rlock_count r) + 1 = 2 ^ 64 \<longrightarrow>
            RLock_acquire r tid blocking obj os = Some (Raises OverflowError, r))"
proof (intro conjI impI)
  assume lt: "unat (rlock_count r) + 1 < 2 ^ 64"
  then show u: "unat (rlock_count r + 1) = unat (rlock_count r) + 1"
    by (simp add: unat_word_ariths)
  then have "\<not> rlock_count r + 1 \<le> rlock_count r"
    by (simp add: word_le_nat_alt)
  with assms show "RLock_acquire r tid blocking obj os
      = Some (Returns True, r\<lparr>rlock_count := rlock_count r + 1\<rparr>)"
    by (simp add: RLock_acquire_def Let_def)
next
  assume "unat (rlock_count r) + 1 = 2 ^ 64"
  then have "unat (rlock_count r + 1) = 0"
    by (simp add: unat_word_ariths)
  then have "rlock_count r + 1 \<le> rlock_count r"
    by (simp add: word_le_nat_alt)
  with assms show "RLock_acquire r tid blocking obj os = Some (Raises OverflowError, r)"
    by (simp add: RLock_acquire_def Let_def)
qed

theorem RLock_acquire_reentrant_witness:
  "let os = \<lparr>sys_now = \<lparr>tv_sec = 0, tv_usec = 0\<rparr>, sys_answers = []\<rparr> in
   RLock_acquire \<lparr>rlock_sem = 0, rlock_owner = 7, rlock_count = 2\<rparr> 7 1 Py_None os
     = Some (Returns True, \<lparr>rlock_sem = 0, rlock_owner = 7, rlock_count = 3\<rparr>) \<and>
   RLock_acquire \<lparr>rlock_sem = 0, rlock_owner = 7, rlock_count = 18446744073709551615\<rparr> 7 1 Py_None os
     = Some (Raises OverflowError, \<lparr>rlock_sem = 0, rlock_owner = 7, rlock_count = 18446744073709551615\<rparr>)"
proof -
  have p: "acquire_parse_args 1 Py_None = Inr (- 1)"
    by (simp add: acquire_parse_args_def parse_timeout_def UNLIMITED_def)
  have a: "rlock_count \<lparr>rlock_sem = 0, rlock_owner = 7 :: long, rlock_count = 2\<rparr> > 0"
    by simp
  have b: "rlock_count \<lparr>rlock_sem = 0, rlock_owner = 7 :: long, rlock_count = 18446744073709551615\<rparr> > 0"
    by simp
  show ?thesis
    using RLock_acquire_reentrant [OF _ a p, of 7 "\<lparr>sys_now = \<lparr>tv_sec = 0, tv_usec = 0\<rparr>, sys_answers = []\<rparr>"]
      RLock_acquire_reentrant [OF _ b p, of 7 "\<lparr>sys_now = \<lparr>tv_sec = 0, tv_usec = 0\<rparr>, sys_answers = []\<rparr>"]
    by (simp add: Let_def)
qed

section \<open>Lock: release\<close>

lemma release_lock_ok: "sem < SEM_VALUE_MAX \<Longrightarrow> release_lock sem = Inr (sem + 1)"
  by (simp add: release_lock_def sem_post_def)

lemma release_lock_overflow:
  "\<not> sem < SEM_VALUE_MAX \<Longrightarrow> release_lock sem = Inl (OSError EOVERFLOW)"
  by (simp add: release_lock_def sem_post_def)

lemma acquire_lock_available:
  "0 < sem \<Longrightarrow> acquire_lock sem timeout os = Some (ACQUIRE_OK, sem - 1)"
  by (simp add: acquire_lock_def sem_trywait_def)

text \<open>
  Claim C7. \<^verbatim>\<open>release\<close> of a Lock raises \<^verbatim>\<open>ThreadError\<close> exactly when the owner field
  is zero, and then leaves the lock unchanged. The calling thread is not an argument:
  when some thread owns the lock, a release by a thread that is not the owner posts the
  semaphore and clears the owner. When the post fails the error is raised with the
  owner still set.
\<close>

theorem Lock_release_checks_owner_only:
  "(fst (Lock_release l) = Raises ThreadError \<longleftrightarrow> lock_owner l = 0) \<and>
   (lock_owner l = 0 \<longrightarrow> snd (Lock_release l) = l) \<and>
   (lock_owner l \<noteq> 0 \<and> \<not> Lock_is_owned l tid \<and> lock_sem l < SEM_VALUE_MAX \<longrightarrow>
      Lock_release l = (Returns (), l\<lparr>lock_sem := lock_sem l + 1, lock_owner := 0\<rparr>)) \<and>
   (lock_owner l \<noteq> 0 \<and> \<not> lock_sem l < SEM_VALUE_MAX \<longrightarrow>
      Lock_release l = (Raises (OSError EOVERFLOW), l))"
  by (cases "lock_sem l < SEM_VALUE_MAX")
    (simp_all add: Lock_release_def release_lock_ok release_lock_overflow)

theorem Lock_release_checks_owner_only_witness:
  "Lock_release \<lparr>lock_sem = 1, lock_owner = 0\<rparr>
     = (Raises ThreadError, \<lparr>lock_sem = 1, lock_owner = 0\<rparr>) \<and>
   \<not> Lock_is_owned \<lparr>lock_sem = 0, lock_owner = 7\<rparr> 8 \<and>
   Lock_release \<lparr>lock_sem = 0, lock_owner = 7\<rparr>
     = (Returns (), \<lparr>lock_sem = 1, lock_owner = 0\<rparr>) \<and>
   Lock_release \<lparr>lock_sem = 2147483647, lock_owner = 7\<rparr>
     = (Raises (OSError EOVERFLOW), \<lparr>lock_sem = 2147483647, lock_owner = 7\<rparr>)"
  using Lock_release_checks_owner_only [of "\<lparr>lock_sem = 1, lock_owner = 0\<rparr>" 8]
    Lock_release_checks_owner_only [of "\<lparr>lock_sem = 0, lock_owner = 7\<rparr>" 8]
    Lock_release_checks_owner_only [of "\<lparr>lock_sem = 2147483647, lock_owner = 7\<rparr>" 8]
  by (simp add: Lock_is_owned_def SEM_VALUE_MAX_def prod_eq_iff)

section \<open>Saving and restoring the state of a lock\<close>

text \<open>
  Claim C4. For a Lock owned by the calling thread, \<^verbatim>\<open>_release_save\<close> returns the owner
  and leaves the lock free; \<^verbatim>\<open>_acquire_restore\<close> of that state, with nobody taking the
  lock in between, gives back the lock exactly as it was, owned by the caller. For an
  RLock the saved state is the pair of count and owner, and the round trip restores
  both. Whatever \<^verbatim>\<open>_acquire_restore\<close> of an RLock returns, either both owner and count
  are the saved ones, or the call did not return normally and both are as before.
\<close>

theorem save_restore_round_trip:
  "(lock_owner l = tid \<and> tid \<noteq> 0 \<and> lock_sem l < SEM_VALUE_MAX \<longrightarrow>
      (\<exists>l'. Lock_release_save l = (Returns (PyLong (lock_owner l)), l') \<and>
            \<not> Lock_is_owned l' tid \<and>
            Lock_acquire_restore l' (PyLong (lock_owner l)) os = Some (Returns (), l)) \<and>
      Lock_is_owned l tid) \<and>
   (rlock_owner r = tid \<and> rlock_count r > 0 \<and> rlock_sem r < SEM_VALUE_MAX \<longrightarrow>
      (\<exists>r'. RLock_release_save r = (Returns (PyPair (rlock_count r) (rlock_owner r)), r') \<and>
            \<not> RLock_is_owned r' tid \<and>
            RLock_acquire_restore r' (PyPair (rlock_count r) (rlock_owner r)) os
              = Some (Returns (), r)) \<and>
      RLock_is_owned r tid) \<and>
   (RLock_acquire_restore r0 (PyPair c ow) os = Some (res, r1) \<longrightarrow>
      (res = Returns () \<and> rlock_owner r1 = ow \<and> rlock_count r1 = c) \<or>
      (res \<noteq> Returns () \<and> rlock_owner r1 = rlock_owner r0 \<and> rlock_count r1 = rlock_count r0))"
proof (intro conjI impI)
  assume a: "lock_owner l = tid \<and> tid \<noteq> 0 \<and> lock_sem l < SEM_VALUE_MAX"
  then show "Lock_is_owned l tid" by (simp add: Lock_is_owned_def)
  let ?l' = "l\<lparr>lock_sem := lock_sem l + 1, lock_owner := 0\<rparr>"
  have 1: "Lock_release_save l = (Returns (PyLong (lock_owner l)), ?l')"
    using a by (auto simp add: Lock_release_save_def release_lock_ok)
  have 2: "\<not> Lock_is_owned ?l' tid"
    using a by (auto simp add: Lock_is_owned_def)
  have 3: "Lock_acquire_restore ?l' (PyLong (lock_owner l)) os = Some (Returns (), l)"
    by (simp add: Lock_acquire_restore_def acquire_lock_available)
  from 1 2 3 show "\<exists>l'. Lock_release_save l = (Returns (PyLong (lock_owner l)), l') \<and>
      \<not> Lock_is_owned l' tid \<and>
      Lock_acquire_restore l' (PyLong (lock_owner l)) os = Some (Returns (), l)"
    by blast
next
  assume a: "rlock_owner r = tid \<and> rlock_count r > 0 \<and> rlock_sem r < SEM_VALUE_MAX"
  then show "RLock_is_owned r tid" by (simp add: RLock_is_owned_def)
  let ?r' = "r\<lparr>rlock_sem := rlock_sem r + 1, rlock_count := 0, rlock_owner := 0\<rparr>"
  have 1: "RLock_release_save r = (Returns (PyPair (rlock_count r) (rlock_owner r)), ?r')"
    using a by (auto simp add: RLock_release_save_def release_lock_ok)
  have 2: "\<not> RLock_is_owned ?r' tid"
    by (simp add: RLock_is_owned_def)
  have 3: "RLock_acquire_restore ?r' (PyPair (rlock_count r) (rlock_owner r)) os
      = Some (Returns (), r)"
    by (simp add: RLock_acquire_restore_def acquire_lock_available)
  from 1 2 3 show "\<exists>r'. RLock_release_save r
        = (Returns (PyPair (rlock_count r) (rlock_owner r)), r') \<and>
      \<not> RLock_is_owned r' tid \<and>
      RLock_acquire_restore r' (PyPair (rlock_count r) (rlock_owner r)) os
        = Some (Returns (), r)"
    by blast
next
  assume "RLock_acquire_restore r0 (PyPair c ow) os = Some (res, r1)"
  then show "(res = Returns () \<and> rlock_owner r1 = ow \<and> rlock_count r1 = c) \<or>
      (res \<noteq> Returns () \<and> rlock_owner r1 = rlock_owner r0 \<and> rlock_count r1 = rlock_count r0)"
    by (auto simp add: RLock_acquire_restore_def Let_def
        split: option.splits acquire_result.splits if_splits)
qed


theorem save_restore_round_trip_witness:
  "Lock_acquire_restore (snd (Lock_release_save \<lparr>lock_sem = 0, lock_owner = 7\<rparr>)) (PyLong 7)
       \<lparr>sys_now = \<lparr>tv_sec = 0, tv_usec = 0\<rparr>, sys_answers = []\<rparr>
     = Some (Returns (), \<lparr>lock_sem = 0, lock_owner = 7\<rparr>) \<and>
   RLock_acquire_restore
       (snd (RLock_release_save \<lparr>rlock_sem = 0, rlock_owner = 7, rlock_count = 3\<rparr>)) (PyPair 3 7)
       \<lparr>sys_now = \<lparr>tv_sec = 0, tv_usec = 0\<rparr>, sys_answers = []\<rparr>
     = Some (Returns (), \<lparr>rlock_sem = 0, rlock_owner = 7, rlock_count = 3\<rparr>) \<and>
   RLock_acquire_restore \<lparr>rlock_sem = 1, rlock_owner = 0, rlock_count = 0\<rparr> (PyPair 3 7)
       \<lparr>sys_now = \<lparr>tv_sec = 0, tv_usec = 0\<rparr>, sys_answers = []\<rparr>
     = Some (Returns (), \<lparr>rlock_sem = 0, rlock_owner = 7, rlock_count = 3\<rparr>) \<and>
   rlock_owner \<lparr>rlock_sem = 0, rlock_owner = 7 :: long, rlock_count = 3\<rparr> = 7"
proof -
  have r: "RLock_acquire_restore \<lparr>rlock_sem = 1, rlock_owner = 0, rlock_count = 0\<rparr> (PyPair 3 7)
       \<lparr>sys_now = \<lparr>tv_sec = 0, tv_usec = 0\<rparr>, sys_answers = []\<rparr>
     = Some (Returns (), \<lparr>rlock_sem = 0, rlock_owner = 7, rlock_count = 3\<rparr>)"
    by (simp add: RLock_acquire_restore_def acquire_lock_def sem_trywait_def)
  show ?thesis
    using r save_restore_round_trip [of "\<lparr>lock_sem = 0, lock_owner = 7\<rparr>" 7
        "\<lparr>sys_now = \<lparr>tv_sec = 0, tv_usec = 0\<rparr>, sys_answers = []\<rparr>"
        "\<lparr>rlock_sem = 0, rlock_owner = 7, rlock_count = 3\<rparr>"
        "\<lparr>rlock_sem = 1, rlock_owner = 0, rlock_count = 0\<rparr>" 3 7 "Returns ()"
        "\<lparr>rlock_sem = 0, rlock_owner = 7, rlock_count = 3\<rparr>"]
    by (auto simp add: SEM_VALUE_MAX_def)
qed

section \<open>RLock: release\<close>

lemma acquire_parse_args_default: "acquire_parse_args 1 Py_None = Inr (- 1)"
  by (simp add: acquire_parse_args_def parse_timeout_def UNLIMITED_def)

lemma RLock_acquire_owned:
  assumes "rlock_owner l = tid" and "0 < unat (rlock_count l)"
    and "unat (rlock_count l) + 1 < 2 ^ 64"
  shows "RLock_acquire l tid 1 Py_None os = Some (Returns True, l\<lparr>rlock_count := rlock_count l + 1\<rparr>)"
proof -
  have "unat (rlock_count l + 1) = unat (rlock_count l) + 1"
    using assms(3) by (simp add: unat_word_ariths)
  then have "\<not> rlock_count l + 1 \<le> rlock_count l"
    by (simp add: word_le_nat_alt)
  moreover have "0 < rlock_count l"
    using assms(2) by (simp add: word_less_nat_alt)
  ultimately show ?thesis
    using assms(1) by (simp add: RLock_acquire_def Let_def acquire_parse_args_default)
qed

lemma acquire_n_owned:
  "rlock_owner l = tid \<Longrightarrow> 0 < unat (rlock_count l) \<Longrightarrow> unat (rlock_count l) + n < 2 ^ 64 \<Longrightarrow>
   acquire_n n tid os l = Some (l\<lparr>rlock_count := rlock_count l + of_nat n\<rparr>)"
proof (induction n arbitrary: l)
  case 0
  then show ?case by simp
next
  case (Suc n)
  let ?l' = "l\<lparr>rlock_count := rlock_count l + 1\<rparr>"
  have lt: "unat (rlock_count l) + 1 < 2 ^ 64" using Suc.prems(3) by simp
  have step: "RLock_acquire l tid 1 Py_None os = Some (Returns True, ?l')"
    using Suc.prems(1,2) lt by (rule RLock_acquire_owned)
  have u: "unat (rlock_count ?l') = unat (rlock_count l) + 1"
    using lt by (simp add: unat_word_ariths)
  have "acquire_n n tid os ?l' = Some (?l'\<lparr>rlock_count := rlock_count ?l' + of_nat n\<rparr>)"
    using Suc.prems u by (intro Suc.IH) simp_all
  then show ?case using step by (simp add: add.assoc)
qed

lemma RLock_new_free: "RLock_new = Inr \<lparr>rlock_sem = 1, rlock_owner = 0, rlock_count = 0\<rparr>"
  by (simp add: RLock_new_def sem_init_def SEM_VALUE_MAX_def)

lemma RLock_acquire_free:
  "RLock_acquire \<lparr>rlock_sem = 1, rlock_owner = 0, rlock_count = 0\<rparr> tid 1 Py_None os
     = Some (Returns True, \<lparr>rlock_sem = 0, rlock_owner = tid, rlock_count = 1\<rparr>)"
  by (simp add: RLock_acquire_def acquire_parse_args_default acquire_lock_available)

lemma acquire_n_free:
  assumes "0 < N" and "N < 2 ^ 64"
  shows "acquire_n N tid os \<lparr>rlock_sem = 1, rlock_owner = 0, rlock_count = 0\<rparr>
     = Some \<lparr>rlock_sem = 0, rlock_owner = tid, rlock_count = of_nat N\<rparr>"
proof -
  obtain k where N: "N = Suc k" using assms(1) by (cases N) auto
  let ?l = "\<lparr>rlock_sem = 0, rlock_owner = tid, rlock_count = 1 :: ulong\<rparr>"
  have "acquire_n k tid os ?l = Some (?l\<lparr>rlock_count := rlock_count ?l + of_nat k\<rparr>)"
    using assms(2) N by (intro acquire_n_owned) simp_all
  then show ?thesis using N RLock_acquire_free [of tid os] by simp
qed

lemma RLock_release_unowned:
  "rlock_count l = 0 \<or> rlock_owner l \<noteq> tid \<Longrightarrow> RLock_release l tid = (Raises RuntimeError, l)"
  by (auto simp add: RLock_release_def)

lemma RLock_release_nested:
  "rlock_owner l = tid \<Longrightarrow> 1 < rlock_count l \<Longrightarrow>
   RLock_release l tid = (Returns (), l\<lparr>rlock_count := rlock_count l - 1\<rparr>)"
  by (auto simp add: RLock_release_def)

lemma RLock_release_last:
  "rlock_owner l = tid \<Longrightarrow> rlock_count l = 1 \<Longrightarrow> rlock_sem l < SEM_VALUE_MAX \<Longrightarrow>
   RLock_release l tid
     = (Returns (), l\<lparr>rlock_sem := rlock_sem l + 1, rlock_count := 0, rlock_owner := 0\<rparr>)"
  by (simp add: RLock_release_def release_lock_ok)

lemma release_n_nested:
  "rlock_owner l = tid \<Longrightarrow> n < unat (rlock_count l) \<Longrightarrow>
   release_n n tid l = Some (l\<lparr>rlock_count := rlock_count l - of_nat n\<rparr>)"
proof (induction n arbitrary: l)
  case 0
  then show ?case by simp
next
  case (Suc n)
  let ?l' = "l\<lparr>rlock_count := rlock_count l - 1\<rparr>"
  have one: "1 < rlock_count l"
    using Suc.prems(2) by (simp add: word_less_nat_alt)
  have step: "RLock_release l tid = (Returns (), ?l')"
    using Suc.prems(1) one by (rule RLock_release_nested)
  have "1 \<le> rlock_count l" using one by simp
  then have u: "unat (rlock_count ?l') = unat (rlock_count l) - 1"
    by (simp add: unat_sub)
  have "release_n n tid ?l' = Some (?l'\<lparr>rlock_count := rlock_count ?l' - of_nat n\<rparr>)"
    using Suc.prems u by (intro Suc.IH) simp_all
  then show ?case using step by (simp add: diff_diff_eq)
qed

text \<open>
  Claim C6, as amended. \<^verbatim>\<open>release\<close> of an RLock raises \<^verbatim>\<open>RuntimeError\<close> and changes
  nothing unless the calling thread is the owner with a positive count; with a count
  above one it only decrements the count; with a count of one it posts the semaphore
  and resets owner and count to zero. After \<open>N\<close> acquires and \<open>N - 1\<close> releases by
  one thread on a new RLock the thread still owns it; after the \<open>N\<close>-th release it
  does not, and the lock is back in its initial state: owner zero, count zero,
  semaphore available.
\<close>

theorem RLock_release_balanced:
  "(rlock_count l = 0 \<or> rlock_owner l \<noteq> tid \<longrightarrow>
      RLock_release l tid = (Raises RuntimeError, l)) \<and>
   (rlock_owner l = tid \<and> 1 < rlock_count l \<longrightarrow>
      RLock_release l tid = (Returns (), l\<lparr>rlock_count := rlock_count l - 1\<rparr>)) \<and>
   (rlock_owner l = tid \<and> rlock_count l = 1 \<and> rlock_sem l < SEM_VALUE_MAX \<longrightarrow>
      RLock_release l tid
        = (Returns (), l\<lparr>rlock_sem := rlock_sem l + 1, rlock_count := 0, rlock_owner := 0\<rparr>)) \<and>
   (0 < N \<and> N < 2 ^ 64 \<longrightarrow>
      (\<exists>free held once.
         RLock_new = Inr free \<and>
         acquire_n N tid os free = Some held \<and>
         release_n (N - 1) tid held = Some once \<and>
         RLock_is_owned once tid \<and>
         release_n 1 tid once = Some free \<and>
         \<not> RLock_is_owned free tid \<and>
         rlock_owner free = 0 \<and> rlock_count free = 0 \<and> rlock_sem free = 1))"
proof (intro conjI impI)
  assume "rlock_count l = 0 \<or> rlock_owner l \<noteq> tid"
  then show "RLock_release l tid = (Raises RuntimeError, l)"
    by (rule RLock_release_unowned)
next
  assume "rlock_owner l = tid \<and> 1 < rlock_count l"
  then show "RLock_release l tid = (Returns (), l\<lparr>rlock_count := rlock_count l - 1\<rparr>)"
    by (simp add: RLock_release_nested)
next
  assume "rlock_owner l = tid \<and> rlock_count l = 1 \<and> rlock_sem l < SEM_VALUE_MAX"
  then show "RLock_release l tid
      = (Returns (), l\<lparr>rlock_sem := rlock_sem l + 1, rlock_count := 0, rlock_owner := 0\<rparr>)"
    by (simp add: RLock_release_last)
next
  assume N: "0 < N \<and> N < 2 ^ 64"
  let ?free = "\<lparr>rlock_sem = 1, rlock_owner = 0, rlock_count = 0\<rparr> :: RLock"
  let ?held = "\<lparr>rlock_sem = 0, rlock_owner = tid, rlock_count = of_nat N\<rparr> :: RLock"
  let ?once = "\<lparr>rlock_sem = 0, rlock_owner = tid, rlock_count = 1\<rparr> :: RLock"
  have uN: "unat (of_nat N :: ulong) = N"
    using N by (simp add: unat_of_nat)
  have a: "acquire_n N tid os ?free = Some ?held"
    using N by (intro acquire_n_free) simp_all
  have "release_n (N - 1) tid ?held = Some (?held\<lparr>rlock_count := rlock_count ?held - of_nat (N - 1)\<rparr>)"
    using N uN by (intro release_n_nested) simp_all
  moreover have "(of_nat N :: ulong) - of_nat (N - 1) = 1"
    using N by (cases N) simp_all
  ultimately have b: "release_n (N - 1) tid ?held = Some ?once"
    by simp
  have c: "RLock_is_owned ?once tid"
    by (simp add: RLock_is_owned_def)
  have "RLock_release ?once tid
      = (Returns (), ?once\<lparr>rlock_sem := rlock_sem ?once + 1, rlock_count := 0, rlock_owner := 0\<rparr>)"
    by (intro RLock_release_last) (simp_all add: SEM_VALUE_MAX_def)
  then have d: "release_n 1 tid ?once = Some ?free"
    by simp
  have e: "\<not> RLock_is_owned ?free tid"
    by (simp add: RLock_is_owned_def)
  from RLock_new_free a b c d e
  show "\<exists>free held once.
         RLock_new = Inr free \<and>
         acquire_n N tid os free = Some held \<and>
         release_n (N - 1) tid held = Some once \<and>
         RLock_is_owned once tid \<and>
         release_n 1 tid once = Some free \<and>
         \<not> RLock_is_owned free tid \<and>
         rlock_owner free = 0 \<and> rlock_count free = 0 \<and> rlock_sem free = 1"
    by (intro exI [of _ ?free] exI [of _ ?held] exI [of _ ?once]) simp
qed

theorem RLock_release_balanced_witness:
  "RLock_release \<lparr>rlock_sem = 0, rlock_owner = 7, rlock_count = 2\<rparr> 8
     = (Raises RuntimeError, \<lparr>rlock_sem = 0, rlock_owner = 7, rlock_count = 2\<rparr>) \<and>
   RLock_release \<lparr>rlock_sem = 0, rlock_owner = 7, rlock_count = 2\<rparr> 7
     = (Returns (), \<lparr>rlock_sem = 0, rlock_owner = 7, rlock_count = 1\<rparr>) \<and>
   RLock_release \<lparr>rlock_sem = 0, rlock_owner = 7, rlock_count = 1\<rparr> 7
     = (Returns (), \<lparr>rlock_sem = 1, rlock_owner = 0, rlock_count = 0\<rparr>) \<and>
   (\<exists>held once.
      acquire_n 3 7 \<lparr>sys_now = \<lparr>tv_sec = 0, tv_usec = 0\<rparr>, sys_answers = []\<rparr>
          \<lparr>rlock_sem = 1, rlock_owner = 0, rlock_count = 0\<rparr> = Some held \<and>
      release_n 2 7 held = Some once \<and> RLock_is_owned once 7 \<and>
      release_n 1 7 once = Some \<lparr>rlock_sem = 1, rlock_owner = 0, rlock_count = 0\<rparr>)"
proof -
  have n: "RLock_new = Inr \<lparr>rlock_sem = 1, rlock_owner = 0, rlock_count = 0\<rparr>"
    by (simp add: RLock_new_def sem_init_def SEM_VALUE_MAX_def)
  show ?thesis
    using RLock_release_balanced [of "\<lparr>rlock_sem = 0, rlock_owner = 7, rlock_count = 2\<rparr>" 8 3
        "\<lparr>sys_now = \<lparr>tv_sec = 0, tv_usec = 0\<rparr>, sys_answers = []\<rparr>"]
      RLock_release_balanced [of "\<lparr>rlock_sem = 0, rlock_owner = 7, rlock_count = 2\<rparr>" 7 3
        "\<lparr>sys_now = \<lparr>tv_sec = 0, tv_usec = 0\<rparr>, sys_answers = []\<rparr>"]
      RLock_release_balanced [of "\<lparr>rlock_sem = 0, rlock_owner = 7, rlock_count = 1\<rparr>" 7 3
        "\<lparr>sys_now = \<lparr>tv_sec = 0, tv_usec = 0\<rparr>, sys_answers = []\<rparr>"]
    by (auto simp add: n SEM_VALUE_MAX_def)
qed

text \<open>
  The claim as stated also has \<^verbatim>\<open>locked()\<close> report false after the last release. The
  method table of RLock has no entry of that name, unlike that of Lock, so the call
  raises \<^verbatim>\<open>AttributeError\<close>.
\<close>

theorem RLock_has_no_locked_method:
  "getattr RLock_methods ''locked'' = Inl AttributeError \<and>
   getattr Lock_methods ''locked'' = Inr ''Lock_locked''"
  by (simp add: getattr_def RLock_methods_def Lock_methods_def)

section \<open>The wait queue keeps its invariant\<close>

lemma s32_id: "- 2147483648 \<le> x \<Longrightarrow> x \<le> 2147483647 \<Longrightarrow> s32 x = x"
  by (simp add: s32_def)

lemma load_Addr:
  "load h (Addr a) = (case Mapping.lookup h a of None \<Rightarrow> Inl InvalidPointer | Some w \<Rightarrow> Inr w)"
  by (simp add: load_def)

lemma store_Addr:
  "store h (Addr a) f =
     (case Mapping.lookup h a of None \<Rightarrow> Inl InvalidPointer
      | Some w \<Rightarrow> Inr (Mapping.update a (f w) h))"
  by (simp add: store_def)

lemma in_keys_lookup: "a \<in> Mapping.keys h \<longleftrightarrow> (\<exists>w. Mapping.lookup h a = Some w)"
  by (auto simp add: keys_dom_lookup)

lemma dll_update_other:
  "a \<notin> set xs \<Longrightarrow> dll (Mapping.update a w h) p xs n = dll h p xs n"
  by (induction xs arbitrary: p) (auto simp add: lookup_update' split: option.splits)

lemma dll_append:
  "dll h p (xs @ ys) n \<longleftrightarrow>
     dll h p xs (case ys of [] \<Rightarrow> n | b # bs \<Rightarrow> Addr b) \<and>
     dll h (if xs = [] then p else Addr (last xs)) ys n"
proof (induction xs arbitrary: p)
  case Nil
  then show ?case by simp
next
  case (Cons a xs)
  show ?case
  proof (cases xs)
    case Nil
    then show ?thesis by (auto split: option.splits list.splits)
  next
    case (Cons b bs)
    then show ?thesis using Cons.IH [of "Addr a"] by (auto split: option.splits)
  qed
qed

lemma dll_allocated: "dll h p xs n \<Longrightarrow> a \<in> set xs \<Longrightarrow> \<exists>w. Mapping.lookup h a = Some w"
  by (induction xs arbitrary: p) (auto split: option.splits)

lemma dll_set_last_next:
  assumes "dll h p (ys @ [l]) n" and "l \<notin> set ys" and "Mapping.lookup h l = Some wl"
  shows "dll (Mapping.update l (wl\<lparr>waiter_next := n'\<rparr>) h) p (ys @ [l]) n'"
  using assms by (simp add: dll_append dll_update_other)

lemma dll_set_first_prev:
  assumes "dll h p (f # zs) n" and "f \<notin> set zs" and "Mapping.lookup h f = Some wz"
  shows "dll (Mapping.update f (wz\<lparr>waiter_prev := p'\<rparr>) h) p' (f # zs) n"
  using assms by (simp add: dll_update_other)

lemma dll_next_linked:
  "dll h p xs n \<Longrightarrow> n \<noteq> WAITER_UNUSED \<Longrightarrow> a \<in> set xs \<Longrightarrow>
   Mapping.lookup h a = Some w \<Longrightarrow> waiter_next w \<noteq> WAITER_UNUSED"
proof (induction xs arbitrary: p)
  case Nil
  then show ?case by simp
next
  case (Cons x xs)
  from Cons.prems(1) obtain wx where wx: "Mapping.lookup h x = Some wx"
    and nx: "waiter_next wx = (case xs of [] \<Rightarrow> n | b # bs \<Rightarrow> Addr b)"
    and rest: "dll h (Addr x) xs n"
    by (cases "Mapping.lookup h x") simp_all
  show ?case
  proof (cases "a = x")
    case True
    with wx Cons.prems(4) have "w = wx" by simp
    with nx Cons.prems(2) show ?thesis by (cases xs) simp_all
  next
    case False
    with Cons.prems(3) have "a \<in> set xs" by simp
    with Cons.IH [OF rest Cons.prems(2) _ Cons.prems(4)] show ?thesis by simp
  qed
qed

lemma waitq_inv_unlinked:
  "waitq_inv h q xs \<Longrightarrow> Mapping.lookup h a = Some w \<Longrightarrow> a \<notin> set xs \<Longrightarrow> unlinked w"
  by (auto simp add: waitq_inv_def in_keys_lookup split: option.splits)

lemma waitq_append_inv:
  assumes inv: "waitq_inv h q xs" and look: "Mapping.lookup h a = Some w"
    and fresh: "a \<notin> set xs" and room: "int (length xs) < INT_MAX"
  shows "\<exists>h' q'. waitq_append h q (Addr a) = Inr (h', q') \<and> waitq_inv h' q' (xs @ [a]) \<and>
           Mapping.keys h' = Mapping.keys h"
proof -
  have unl: "waiter_next w = WAITER_UNUSED" "waiter_prev w = WAITER_UNUSED"
    using waitq_inv_unlinked [OF inv look fresh] by (simp_all add: unlinked_def)
  have cnt: "waitq_count q = int (length xs)" and dl: "dll h NULL xs NULL" and dist: "distinct xs"
    and others: "\<forall>b\<in>Mapping.keys h. b \<notin> set xs \<longrightarrow>
         (case Mapping.lookup h b of None \<Rightarrow> True | Some w \<Rightarrow> unlinked w)"
    using inv by (simp_all add: waitq_inv_def)
  have s: "s32 (int (length xs) + 1) = int (length xs) + 1"
    using room by (intro s32_id) (simp_all add: INT_MAX_def)
  have ka: "a \<in> Mapping.keys h" using look by (simp add: in_keys_lookup)
  let ?w' = "w\<lparr>waiter_next := NULL, waiter_prev := waitq_last q\<rparr>"
  let ?h1 = "Mapping.update a ?w' h"
  show ?thesis
  proof (cases xs rule: rev_cases)
    case Nil
    then have last: "waitq_last q = NULL" and first: "waitq_first q = NULL"
      using inv by (simp_all add: waitq_inv_def)
    let ?q' = "q\<lparr>waitq_first := Addr a, waitq_last := Addr a, waitq_count := 1\<rparr>"
    have eq: "waitq_append h q (Addr a) = Inr (?h1, ?q')"
      using look unl last cnt Nil
      by (simp add: waitq_append_def load_Addr store_Addr s32_def)
    have "waitq_inv ?h1 ?q' [a]"
      using others Nil last
      by (auto simp add: waitq_inv_def INT_MAX_def lookup_update' split: option.splits)
    with eq Nil ka show ?thesis by auto
  next
    case (snoc ys l)
    then have last: "waitq_last q = Addr l"
      using inv by (simp add: waitq_inv_def)
    have la: "l \<noteq> a" using fresh snoc by auto
    have lys: "l \<notin> set ys" and ays: "a \<notin> set ys" using dist fresh snoc by auto
    obtain wl where wl: "Mapping.lookup h l = Some wl"
      using dll_allocated [OF dl, of l] snoc by auto
    let ?h2 = "Mapping.update l (wl\<lparr>waiter_next := Addr a\<rparr>) ?h1"
    let ?q' = "q\<lparr>waitq_last := Addr a, waitq_count := int (length xs) + 1\<rparr>"
    have eq: "waitq_append h q (Addr a) = Inr (?h2, ?q')"
      using look unl last cnt wl la s
      by (simp add: waitq_append_def load_Addr store_Addr)
    have d1: "dll ?h1 NULL (ys @ [l]) NULL"
      using dl snoc fresh by (simp add: dll_update_other)
    have l1: "Mapping.lookup ?h1 l = Some wl" using wl la by simp
    have d2: "dll ?h2 NULL (ys @ [l]) (Addr a)"
      using dll_set_last_next [OF d1 lys l1] .
    have d3: "dll ?h2 (Addr l) [a] NULL"
      using la last by simp
    have d: "dll ?h2 NULL ((ys @ [l]) @ [a]) NULL"
      using d2 d3 by (subst dll_append) simp
    have o: "\<forall>b\<in>Mapping.keys ?h2. b \<notin> set (xs @ [a]) \<longrightarrow>
         (case Mapping.lookup ?h2 b of None \<Rightarrow> True | Some w \<Rightarrow> unlinked w)"
      using others snoc by (auto simp add: lookup_update' split: option.splits)
    have f: "waitq_first ?q' = (case xs @ [a] of [] \<Rightarrow> NULL | b # bs \<Rightarrow> Addr b)"
      using inv snoc by (cases ys) (simp_all add: waitq_inv_def)
    have "waitq_inv ?h2 ?q' (xs @ [a])"
      unfolding waitq_inv_def
      using d o f dist fresh room snoc by simp
    moreover have "Mapping.keys ?h2 = Mapping.keys h"
      using ka wl by (auto simp add: in_keys_lookup)
    ultimately show ?thesis using eq by blast
  qed
qed

lemma posted_to_alt:
  "posted_to S h h' \<longleftrightarrow>
     Mapping.keys h' = Mapping.keys h \<and>
     (\<forall>b. map_option waiter_sem (Mapping.lookup h' b) =
          map_option (\<lambda>w. if b \<in> S then waiter_sem w + 1 else waiter_sem w)
            (Mapping.lookup h b))"
proof
  assume p: "posted_to S h h'"
  then have k: "Mapping.keys h' = Mapping.keys h"
    by (simp add: posted_to_def)
  have "map_option waiter_sem (Mapping.lookup h' b) =
      map_option (\<lambda>w. if b \<in> S then waiter_sem w + 1 else waiter_sem w) (Mapping.lookup h b)"
    for b
  proof (cases "b \<in> Mapping.keys h")
    case True
    with p show ?thesis by (simp add: posted_to_def)
  next
    case False
    then have "Mapping.lookup h b = None"
      by (simp add: keys_dom_lookup domIff)
    moreover from False k have "b \<notin> Mapping.keys h'" by simp
    then have "Mapping.lookup h' b = None"
      by (simp add: keys_dom_lookup domIff)
    ultimately have "Mapping.lookup h b = None" "Mapping.lookup h' b = None" by simp_all
    then show ?thesis by simp
  qed
  with k show "Mapping.keys h' = Mapping.keys h \<and>
     (\<forall>b. map_option waiter_sem (Mapping.lookup h' b) =
          map_option (\<lambda>w. if b \<in> S then waiter_sem w + 1 else waiter_sem w)
            (Mapping.lookup h b))"
    by simp
next
  assume "Mapping.keys h' = Mapping.keys h \<and>
     (\<forall>b. map_option waiter_sem (Mapping.lookup h' b) =
          map_option (\<lambda>w. if b \<in> S then waiter_sem w + 1 else waiter_sem w)
            (Mapping.lookup h b))"
  then show "posted_to S h h'"
    by (simp add: posted_to_def)
qed

lemma posted_to_refl: "posted_to {} h h"
  by (simp add: posted_to_def option.map_ident)

lemma posted_to_update:
  assumes a: "posted_to {} h h'" and b: "Mapping.lookup h' b = Some w"
    and c: "waiter_sem w' = waiter_sem w"
  shows "posted_to {} h (Mapping.update b w' h')"
proof -
  have "map_option waiter_sem (Mapping.lookup h' b) =
      map_option (\<lambda>w. if b \<in> {} then waiter_sem w + 1 else waiter_sem w) (Mapping.lookup h b)"
    using a unfolding posted_to_alt by blast
  then have "map_option waiter_sem (Mapping.lookup h b) = Some (waiter_sem w)"
    using b by (simp add: option.map_ident)
  moreover have "b \<in> Mapping.keys h'"
    using b by (simp add: in_keys_lookup)
  then have "b \<in> Mapping.keys h"
    using a by (simp add: posted_to_def)
  ultimately show ?thesis
    using a c unfolding posted_to_alt by (auto simp add: lookup_update')
qed

lemma waitq_remove_linked:
  assumes inv: "waitq_inv h q (ys @ a # zs)"
  shows "\<exists>h' q' w'. waitq_remove h q (Addr a) = Inr (h', q') \<and> waitq_inv h' q' (ys @ zs) \<and>
           posted_to {} h h' \<and> Mapping.lookup h' a = Some w' \<and> unlinked w'"
proof -
  let ?xs = "ys @ a # zs"
  let ?prev = "if ys = [] then NULL else Addr (last ys)"
  let ?next = "case zs of [] \<Rightarrow> NULL | b # bs \<Rightarrow> Addr b"
  have cnt: "waitq_count q = int (length ?xs)" and dl: "dll h NULL ?xs NULL"
    and dist: "distinct ?xs" and room: "int (length ?xs) \<le> INT_MAX"
    and first: "waitq_first q = (case ?xs of [] \<Rightarrow> NULL | b # bs \<Rightarrow> Addr b)"
    and last: "waitq_last q = Addr (last ?xs)"
    and others: "\<forall>b\<in>Mapping.keys h. b \<notin> set ?xs \<longrightarrow>
         (case Mapping.lookup h b of None \<Rightarrow> True | Some w \<Rightarrow> unlinked w)"
    using inv by (simp_all add: waitq_inv_def)
  have ays: "a \<notin> set ys" and azs: "a \<notin> set zs" and yz: "set ys \<inter> set zs = {}"
    and dys: "distinct ys" and dzs: "distinct zs"
    using dist by auto
  have dys': "dll h NULL ys (Addr a)" and daz: "dll h ?prev (a # zs) NULL"
    using dl by (simp_all add: dll_append)
  obtain w where w: "Mapping.lookup h a = Some w" and wp: "waiter_prev w = ?prev"
    and wn: "waiter_next w = ?next" and dzs': "dll h (Addr a) zs NULL"
    using daz by (cases "Mapping.lookup h a") simp_all
  have s: "s32 (int (length ?xs) - 1) = int (length ?xs) - 1"
    using room by (intro s32_id) (simp_all add: INT_MAX_def)
  let ?wu = "w\<lparr>waiter_next := WAITER_UNUSED, waiter_prev := WAITER_UNUSED\<rparr>"
  let ?c = "int (length ys) + int (length zs)"
  show ?thesis
  proof (cases ys rule: rev_cases)
    case yNil: Nil
    show ?thesis
    proof (cases zs)
      case zNil: Nil
      let ?h' = "Mapping.update a ?wu h"
      let ?q' = "q\<lparr>waitq_first := NULL, waitq_last := NULL, waitq_count := 0\<rparr>"
      have eq: "waitq_remove h q (Addr a) = Inr (?h', ?q')"
        using w wp wn cnt yNil zNil
        by (simp add: waitq_remove_def load_Addr store_Addr s32_def)
      have "waitq_inv ?h' ?q' []"
        using others yNil zNil
        by (auto simp add: waitq_inv_def INT_MAX_def unlinked_def lookup_update' split: option.splits)
      moreover have "posted_to {} h ?h'"
        using w by (intro posted_to_update posted_to_refl) simp_all
      ultimately show ?thesis using eq yNil zNil by (auto simp add: unlinked_def)
    next
      case zCons: (Cons z zs')
      obtain wz where wz: "Mapping.lookup h z = Some wz"
        using dll_allocated [OF dl, of z] zCons by auto
      have za: "z \<noteq> a" using azs zCons by auto
      let ?h2 = "Mapping.update z (wz\<lparr>waiter_prev := NULL\<rparr>) h"
      let ?h' = "Mapping.update a ?wu ?h2"
      let ?q' = "q\<lparr>waitq_first := Addr z, waitq_count := ?c\<rparr>"
      have eq: "waitq_remove h q (Addr a) = Inr (?h', ?q')"
        using w wp wn cnt yNil zCons wz za s
        by (simp add: waitq_remove_def load_Addr store_Addr)
      have "dll ?h2 NULL (z # zs') NULL"
        using dzs' zCons dzs wz by (intro dll_set_first_prev) simp_all
      then have d: "dll ?h' NULL zs NULL"
        using azs zCons by (simp add: dll_update_other del: dll.simps)
      have o: "\<forall>b\<in>Mapping.keys ?h'. b \<notin> set zs \<longrightarrow>
           (case Mapping.lookup ?h' b of None \<Rightarrow> True | Some w \<Rightarrow> unlinked w)"
        using others yNil zCons
        by (auto simp add: lookup_update' unlinked_def split: option.splits)
      have "waitq_inv ?h' ?q' zs"
        unfolding waitq_inv_def
        using d o dzs last room yNil zCons by (simp add: INT_MAX_def)
      moreover have "posted_to {} h ?h'"
        using w wz za by (intro posted_to_update posted_to_refl) simp_all
      ultimately show ?thesis using eq yNil by (auto simp add: unlinked_def)
    qed
  next
    case ySnoc: (snoc ys' y)
    obtain wy where wy: "Mapping.lookup h y = Some wy"
      using dll_allocated [OF dl, of y] ySnoc by auto
    have ya: "y \<noteq> a" using ays ySnoc by auto
    have yys: "y \<notin> set ys'" using dys ySnoc by auto
    have yzs: "y \<notin> set zs" using yz ySnoc by auto
    let ?h1 = "Mapping.update y (wy\<lparr>waiter_next := ?next\<rparr>) h"
    have d1: "dll ?h1 NULL (ys' @ [y]) ?next"
      using dys' ySnoc yys wy by (intro dll_set_last_next) simp_all
    have f: "waitq_first q = (case ys @ zs of [] \<Rightarrow> NULL | b # bs \<Rightarrow> Addr b)"
      using first ySnoc by (cases ys') simp_all
    show ?thesis
    proof (cases zs)
      case zNil: Nil
      let ?h' = "Mapping.update a ?wu ?h1"
      let ?q' = "q\<lparr>waitq_last := Addr y, waitq_count := ?c\<rparr>"
      have eq: "waitq_remove h q (Addr a) = Inr (?h', ?q')"
        using w wp wn cnt ySnoc zNil wy ya s
        by (simp add: waitq_remove_def load_Addr store_Addr)
      have d: "dll ?h' NULL ys NULL"
        using d1 ays ySnoc zNil by (simp add: dll_update_other del: dll.simps)
      have o: "\<forall>b\<in>Mapping.keys ?h'. b \<notin> set ys \<longrightarrow>
           (case Mapping.lookup ?h' b of None \<Rightarrow> True | Some w \<Rightarrow> unlinked w)"
        using others ySnoc zNil
        by (auto simp add: lookup_update' unlinked_def split: option.splits)
      have "waitq_inv ?h' ?q' (ys @ zs)"
        unfolding waitq_inv_def
        using d o dys f room ySnoc zNil by (simp add: INT_MAX_def)
      moreover have "posted_to {} h ?h'"
        using w wy ya by (intro posted_to_update posted_to_refl) simp_all
      ultimately show ?thesis using eq by (auto simp add: unlinked_def)
    next
      case zCons: (Cons z zs')
      obtain wz where wz: "Mapping.lookup h z = Some wz"
        using dll_allocated [OF dl, of z] zCons by auto
      have za: "z \<noteq> a" using azs zCons by auto
      have zy: "z \<noteq> y" using yzs zCons by auto
      have zys: "z \<notin> set ys" using yz zCons by auto
      let ?h2 = "Mapping.update z (wz\<lparr>waiter_prev := Addr y\<rparr>) ?h1"
      let ?h' = "Mapping.update a ?wu ?h2"
      let ?q' = "q\<lparr>waitq_count := ?c\<rparr>"
      have eq: "waitq_remove h q (Addr a) = Inr (?h', ?q')"
        using w wp wn cnt ySnoc zCons wy wz ya za zy s
        by (simp add: waitq_remove_def load_Addr store_Addr)
      have dy: "dll ?h' NULL ys (Addr z)"
        using d1 ays zys ySnoc zCons by (simp add: dll_update_other del: dll.simps)
      have "dll ?h1 (Addr a) (z # zs') NULL"
        using dzs' yzs zCons by (simp add: dll_update_other del: dll.simps)
      moreover have "Mapping.lookup ?h1 z = Some wz" using wz zy by simp
      ultimately have "dll ?h2 (Addr y) (z # zs') NULL"
        using dzs zCons by (intro dll_set_first_prev) simp_all
      then have dz: "dll ?h' (Addr y) zs NULL"
        using azs zCons by (simp add: dll_update_other del: dll.simps)
      have d: "dll ?h' NULL (ys @ zs) NULL"
        using dy dz ySnoc zCons by (subst dll_append) simp
      have o: "\<forall>b\<in>Mapping.keys ?h'. b \<notin> set (ys @ zs) \<longrightarrow>
           (case Mapping.lookup ?h' b of None \<Rightarrow> True | Some w \<Rightarrow> unlinked w)"
        using others ySnoc zCons
        by (auto simp add: lookup_update' unlinked_def split: option.splits)
      have "waitq_inv ?h' ?q' (ys @ zs)"
        unfolding waitq_inv_def
        using d o dist f last room zCons by (simp add: INT_MAX_def)
      moreover have "posted_to {} h ?h'"
        using w wy wz ya za zy by (intro posted_to_update posted_to_refl) simp_all
      ultimately show ?thesis using eq by (auto simp add: unlinked_def)
    qed
  qed
qed

lemma waitq_remove_unlinked:
  "Mapping.lookup h a = Some w \<Longrightarrow> waiter_next w = WAITER_UNUSED \<Longrightarrow>
   waitq_remove h q (Addr a) = Inr (h, q)"
  by (simp add: waitq_remove_def load_Addr)

lemma waitq_append_linked:
  assumes inv: "waitq_inv h q xs" and look: "Mapping.lookup h a = Some w" and "a \<in> set xs"
  shows "waitq_append h q (Addr a) = Inl AssertionFailed"
proof -
  have "dll h NULL xs NULL" using inv by (simp add: waitq_inv_def)
  then have "waiter_next w \<noteq> WAITER_UNUSED"
    using assms(3) look by (intro dll_next_linked [of h NULL xs NULL a w]) simp_all
  then show ?thesis using look by (simp add: waitq_append_def load_Addr)
qed

text \<open>
  Claim C3. Let the invariant hold for the linked waiters \<open>xs\<close>, and let \<open>a\<close> be the
  address of a waiter. Appending \<open>a\<close>, when it is not linked and the count has room,
  gives a queue for which the invariant holds with \<open>a\<close> added at the tail; appending a
  linked waiter fails the assertion. Removing \<open>a\<close> gives a queue for which the
  invariant holds with \<open>a\<close> taken out of \<open>xs\<close>, the order of the others kept, and
  leaves both links of \<open>a\<close> unused. Removing a waiter whose links are unused changes
  neither the heap nor the queue.
\<close>

theorem waitq_invariant_preserved:
  assumes inv: "waitq_inv h q xs" and look: "Mapping.lookup h a = Some w"
  shows "(a \<notin> set xs \<and> int (length xs) < INT_MAX \<longrightarrow>
            (\<exists>h' q'. waitq_append h q (Addr a) = Inr (h', q') \<and> waitq_inv h' q' (xs @ [a]))) \<and>
         (a \<in> set xs \<longrightarrow> waitq_append h q (Addr a) = Inl AssertionFailed) \<and>
         (\<exists>h' q' w'. waitq_remove h q (Addr a) = Inr (h', q') \<and>
            waitq_inv h' q' (removeAll a xs) \<and>
            Mapping.lookup h' a = Some w' \<and> unlinked w') \<and>
         (unlinked w \<longrightarrow> waitq_remove h q (Addr a) = Inr (h, q))"
proof (intro conjI impI)
  assume "a \<notin> set xs \<and> int (length xs) < INT_MAX"
  then show "\<exists>h' q'. waitq_append h q (Addr a) = Inr (h', q') \<and> waitq_inv h' q' (xs @ [a])"
    using waitq_append_inv [OF inv look] by blast
next
  assume "a \<in> set xs"
  then show "waitq_append h q (Addr a) = Inl AssertionFailed"
    using inv look by (rule waitq_append_linked [rotated 2])
next
  show "\<exists>h' q' w'. waitq_remove h q (Addr a) = Inr (h', q') \<and>
      waitq_inv h' q' (removeAll a xs) \<and> Mapping.lookup h' a = Some w' \<and> unlinked w'"
  proof (cases "a \<in> set xs")
    case True
    then obtain ys zs where xs: "xs = ys @ a # zs"
      by (auto simp add: in_set_conv_decomp)
    have "distinct xs" using inv by (simp add: waitq_inv_def)
    then have r: "removeAll a xs = ys @ zs"
      using xs by (simp add: removeAll_id)
    show ?thesis
      using waitq_remove_linked [of h q ys a zs] inv xs r by auto
  next
    case False
    then have u: "unlinked w"
      using waitq_inv_unlinked [OF inv look] by simp
    then have "waitq_remove h q (Addr a) = Inr (h, q)"
      by (intro waitq_remove_unlinked [OF look]) (simp add: unlinked_def)
    then show ?thesis using inv look u False by (auto simp add: removeAll_id)
  qed
next
  assume "unlinked w"
  then show "waitq_remove h q (Addr a) = Inr (h, q)"
    by (intro waitq_remove_unlinked [OF look]) (simp add: unlinked_def)
qed

theorem waitq_invariant_preserved_witness:
  "let h = Mapping.update 1 \<lparr>waiter_sem = 0, waiter_next = Addr 2, waiter_prev = NULL\<rparr>
            (Mapping.update 2 \<lparr>waiter_sem = 0, waiter_next = NULL, waiter_prev = Addr 1\<rparr>
            (Mapping.update 3
               \<lparr>waiter_sem = 0, waiter_next = WAITER_UNUSED, waiter_prev = WAITER_UNUSED\<rparr>
             Mapping.empty));
       q = \<lparr>waitq_first = Addr 1, waitq_last = Addr 2, waitq_count = 2\<rparr>
   in waitq_inv h q [1, 2] \<and>
      (\<exists>h' q'. waitq_append h q (Addr 3) = Inr (h', q') \<and> waitq_inv h' q' [1, 2, 3]) \<and>
      waitq_append h q (Addr 2) = Inl AssertionFailed \<and>
      (\<exists>h' q' w'. waitq_remove h q (Addr 1) = Inr (h', q') \<and> waitq_inv h' q' [2] \<and>
         Mapping.lookup h' 1 = Some w' \<and> unlinked w') \<and>
      waitq_remove h q (Addr 3) = Inr (h, q)"
proof -
  let ?h = "(Mapping.update 1 \<lparr>waiter_sem = 0, waiter_next = Addr 2, waiter_prev = NULL\<rparr>
            (Mapping.update 2 \<lparr>waiter_sem = 0, waiter_next = NULL, waiter_prev = Addr 1\<rparr>
            (Mapping.update 3
               \<lparr>waiter_sem = 0, waiter_next = WAITER_UNUSED, waiter_prev = WAITER_UNUSED\<rparr>
             Mapping.empty)) :: heap)"
  let ?q = "\<lparr>waitq_first = Addr 1, waitq_last = Addr 2, waitq_count = 2\<rparr>"
  have inv: "waitq_inv ?h ?q [1, 2]"
    by (simp add: waitq_inv_def unlinked_def INT_MAX_def)
  have l1: "Mapping.lookup ?h 1 = Some \<lparr>waiter_sem = 0, waiter_next = Addr 2, waiter_prev = NULL\<rparr>"
    by simp
  have l2: "Mapping.lookup ?h 2 = Some \<lparr>waiter_sem = 0, waiter_next = NULL, waiter_prev = Addr 1\<rparr>"
    by simp
  have l3: "Mapping.lookup ?h 3
      = Some \<lparr>waiter_sem = 0, waiter_next = WAITER_UNUSED, waiter_prev = WAITER_UNUSED\<rparr>"
    by simp
  show ?thesis
    unfolding Let_def
    using inv waitq_invariant_preserved [OF inv l1] waitq_invariant_preserved [OF inv l2]
      waitq_invariant_preserved [OF inv l3]
    by (simp add: unlinked_def INT_MAX_def)
qed

section \<open>Condition: notify\<close>

lemma dll_sem_update:
  "Mapping.lookup h a = Some w \<Longrightarrow>
   dll (Mapping.update a (w\<lparr>waiter_sem := s\<rparr>) h) p xs n = dll h p xs n"
  by (induction xs arbitrary: p) (auto simp add: lookup_update' split: option.splits)

lemma waitq_inv_sem_update:
  assumes "waitq_inv h q xs" and "Mapping.lookup h a = Some w"
  shows "waitq_inv (Mapping.update a (w\<lparr>waiter_sem := s\<rparr>) h) q xs"
proof -
  have k: "a \<in> Mapping.keys h" using assms(2) by (simp add: in_keys_lookup)
  have "\<forall>b\<in>Mapping.keys h. b \<notin> set xs \<longrightarrow>
      (case Mapping.lookup (Mapping.update a (w\<lparr>waiter_sem := s\<rparr>) h) b of
         None \<Rightarrow> True | Some w \<Rightarrow> unlinked w)"
    using assms by (auto simp add: waitq_inv_def lookup_update' unlinked_def split: option.splits)
  then show ?thesis
    using assms k by (simp add: waitq_inv_def dll_sem_update insert_absorb)
qed

lemma posted_to_post:
  assumes "Mapping.lookup h a = Some w"
  shows "posted_to {a} h (Mapping.update a (w\<lparr>waiter_sem := waiter_sem w + 1\<rparr>) h)"
  using assms
  by (auto simp add: posted_to_def lookup_update' in_keys_lookup option.map_ident)

lemma posted_to_trans:
  assumes "posted_to A h h1" and "posted_to B h1 h2" and "A \<inter> B = {}"
  shows "posted_to (A \<union> B) h h2"
proof -
  have k: "Mapping.keys h2 = Mapping.keys h"
    using assms by (simp add: posted_to_def)
  have "map_option waiter_sem (Mapping.lookup h2 b) =
      map_option (\<lambda>w. if b \<in> A \<union> B then waiter_sem w + 1 else waiter_sem w) (Mapping.lookup h b)"
    for b
  proof -
    have 1: "map_option waiter_sem (Mapping.lookup h1 b) =
        map_option (\<lambda>w. if b \<in> A then waiter_sem w + 1 else waiter_sem w) (Mapping.lookup h b)"
      using assms(1) unfolding posted_to_alt by blast
    have 2: "map_option waiter_sem (Mapping.lookup h2 b) =
        map_option (\<lambda>w. if b \<in> B then waiter_sem w + 1 else waiter_sem w) (Mapping.lookup h1 b)"
      using assms(2) unfolding posted_to_alt by blast
    have nb: "\<not> (b \<in> A \<and> b \<in> B)" using assms(3) by auto
    show ?thesis
    proof (cases "Mapping.lookup h b")
      case None
      with 1 have "Mapping.lookup h1 b = None" by simp
      with 2 None show ?thesis by simp
    next
      case (Some w)
      with 1 obtain w1 where w1: "Mapping.lookup h1 b = Some w1"
        and s1: "waiter_sem w1 = (if b \<in> A then waiter_sem w + 1 else waiter_sem w)"
        by (cases "Mapping.lookup h1 b") auto
      with 2 obtain w2 where w2: "Mapping.lookup h2 b = Some w2"
        and s2: "waiter_sem w2 = (if b \<in> B then waiter_sem w1 + 1 else waiter_sem w1)"
        by (cases "Mapping.lookup h2 b") auto
      show ?thesis using Some w2 s1 s2 nb by auto
    qed
  qed
  with k show ?thesis unfolding posted_to_alt by blast
qed

lemma notify_loop_done:
  "\<not> (i < count \<and> waitq_first q \<noteq> NULL) \<Longrightarrow>
   notify_loop i count h q posted = (Returns (), h, q, posted)"
  by (subst notify_loop.simps) auto

lemma notify_loop_step:
  assumes "i < count" and "waitq_first q = Addr a" and "Mapping.lookup h a = Some w"
    and "waiter_sem w < SEM_VALUE_MAX"
    and "waitq_remove (Mapping.update a (w\<lparr>waiter_sem := waiter_sem w + 1\<rparr>) h) q (Addr a)
           = Inr (h2, q2)"
  shows "notify_loop i count h q posted = notify_loop (i + 1) count h2 q2 (posted @ [Addr a])"
  using assms
  by (subst notify_loop.simps) (simp add: Let_def load_Addr store_Addr release_lock_ok)

lemma notify_loop_correct:
  assumes "waitq_inv h q xs"
    and "\<forall>a\<in>set xs. case Mapping.lookup h a of None \<Rightarrow> True | Some w \<Rightarrow> waiter_sem w < SEM_VALUE_MAX"
  shows "\<exists>h' q'. notify_loop i count h q posted
             = (Returns (), h', q', posted @ map Addr (take (nat (count - i)) xs)) \<and>
           waitq_inv h' q' (drop (nat (count - i)) xs) \<and>
           posted_to (set (take (nat (count - i)) xs)) h h'"
  using assms
proof (induction xs arbitrary: i h q posted)
  case Nil
  then have "waitq_first q = NULL" by (simp add: waitq_inv_def)
  then have "notify_loop i count h q posted = (Returns (), h, q, posted)"
    by (simp add: notify_loop_done)
  then show ?case using Nil.prems(1) posted_to_refl [of h] by simp
next
  case (Cons a as)
  show ?case
  proof (cases "i < count")
    case False
    then have "notify_loop i count h q posted = (Returns (), h, q, posted)"
      by (simp add: notify_loop_done)
    moreover have "nat (count - i) = 0" using False by simp
    ultimately show ?thesis using Cons.prems(1) posted_to_refl [of h] by simp
  next
    case True
    let ?k = "nat (count - (i + 1))"
    have k: "nat (count - i) = Suc ?k" using True by simp
    have first: "waitq_first q = Addr a" and dist: "distinct (a # as)"
      and dl: "dll h NULL (a # as) NULL"
      using Cons.prems(1) by (simp_all add: waitq_inv_def)
    obtain w where w: "Mapping.lookup h a = Some w"
      using dl by (cases "Mapping.lookup h a") simp_all
    have sem: "waiter_sem w < SEM_VALUE_MAX"
      using Cons.prems(2) w by simp
    let ?h1 = "Mapping.update a (w\<lparr>waiter_sem := waiter_sem w + 1\<rparr>) h"
    have inv1: "waitq_inv ?h1 q ([] @ a # as)"
      using waitq_inv_sem_update [OF Cons.prems(1) w] by simp
    obtain h2 q2 where rm: "waitq_remove ?h1 q (Addr a) = Inr (h2, q2)"
      and inv2: "waitq_inv h2 q2 as" and same: "posted_to {} ?h1 h2"
      using waitq_remove_linked [OF inv1] by auto
    have step: "notify_loop i count h q posted
        = notify_loop (i + 1) count h2 q2 (posted @ [Addr a])"
      using True first w sem rm by (rule notify_loop_step)
    have p1: "posted_to {a} h ?h1" using w by (rule posted_to_post)
    have p2: "posted_to {a} h h2"
      using posted_to_trans [OF p1 same] by simp
    have sems2: "\<forall>b\<in>set as. case Mapping.lookup h2 b of None \<Rightarrow> True
        | Some w \<Rightarrow> waiter_sem w < SEM_VALUE_MAX"
    proof
      fix b assume b: "b \<in> set as"
      then have ba: "b \<noteq> a" using dist by auto
      have "map_option waiter_sem (Mapping.lookup h2 b) =
          map_option (\<lambda>w. if b \<in> {a} then waiter_sem w + 1 else waiter_sem w) (Mapping.lookup h b)"
        using p2 unfolding posted_to_alt by blast
      then have e: "map_option waiter_sem (Mapping.lookup h2 b)
          = map_option waiter_sem (Mapping.lookup h b)"
        using ba by simp
      from Cons.prems(2) b have "case Mapping.lookup h b of None \<Rightarrow> True
          | Some w \<Rightarrow> waiter_sem w < SEM_VALUE_MAX" by simp
      with e show "case Mapping.lookup h2 b of None \<Rightarrow> True
          | Some w \<Rightarrow> waiter_sem w < SEM_VALUE_MAX"
        by (cases "Mapping.lookup h2 b"; cases "Mapping.lookup h b") auto
    qed
    obtain h' q' where loop: "notify_loop (i + 1) count h2 q2 (posted @ [Addr a])
          = (Returns (), h', q', (posted @ [Addr a]) @ map Addr (take ?k as))"
      and inv': "waitq_inv h' q' (drop ?k as)"
      and p3: "posted_to (set (take ?k as)) h2 h'"
      using Cons.IH [OF inv2 sems2, of "i + 1" "posted @ [Addr a]"] by blast
    have "a \<notin> set (take ?k as)"
      using dist by (auto dest: in_set_takeD)
    then have "posted_to ({a} \<union> set (take ?k as)) h h'"
      using posted_to_trans [OF p2 p3] by simp
    then show ?thesis
      using step loop inv' k by simp
  qed
qed

lemma take_min_length: "take (min k (length xs)) xs = take k xs"
  by (simp add: min_def)

lemma drop_min_length: "drop (min k (length xs)) xs = drop k xs"
  by (simp add: min_def)

lemma Condition_notify_waiters_correct:
  assumes inv: "waitq_inv h (cond_waiters c) xs"
    and owned: "Condition_is_owned_internal c tid"
    and sems: "\<forall>a\<in>set xs. case Mapping.lookup h a of None \<Rightarrow> True
        | Some w \<Rightarrow> waiter_sem w < SEM_VALUE_MAX"
  shows "\<exists>h' c'. Condition_notify_waiters h c tid n
             = (Returns (), h', c', map Addr (take (nat n) xs)) \<and>
           cond_lock c' = cond_lock c \<and>
           waitq_inv h' (cond_waiters c') (drop (nat n) xs) \<and>
           posted_to (set (take (nat n) xs)) h h' \<and>
           (\<forall>a\<in>set (take (nat n) xs).
              case Mapping.lookup h' a of None \<Rightarrow> False | Some w \<Rightarrow> unlinked w)"
proof -
  obtain h' q' where loop: "notify_loop 0 n h (cond_waiters c) []
        = (Returns (), h', q', [] @ map Addr (take (nat (n - 0)) xs))"
    and inv': "waitq_inv h' q' (drop (nat (n - 0)) xs)"
    and p: "posted_to (set (take (nat (n - 0)) xs)) h h'"
    using notify_loop_correct [OF inv sems, of 0 n "[]"] by blast
  let ?c' = "c\<lparr>cond_waiters := q'\<rparr>"
  have r: "Condition_notify_waiters h c tid n = (Returns (), h', ?c', map Addr (take (nat n) xs))"
    using owned loop by (simp add: Condition_notify_waiters_def)
  have dist: "distinct xs" and dl: "dll h NULL xs NULL"
    using inv by (simp_all add: waitq_inv_def)
  have keys: "Mapping.keys h' = Mapping.keys h"
    using p by (simp add: posted_to_def)
  have u: "case Mapping.lookup h' a of None \<Rightarrow> False | Some w \<Rightarrow> unlinked w"
    if a: "a \<in> set (take (nat n) xs)" for a
  proof -
    have "a \<in> set xs" using a by (rule in_set_takeD)
    then obtain w where "Mapping.lookup h a = Some w"
      using dll_allocated [OF dl] by blast
    then have "a \<in> Mapping.keys h'" using keys by (simp add: in_keys_lookup)
    then obtain w' where w': "Mapping.lookup h' a = Some w'"
      by (auto simp add: in_keys_lookup)
    have "distinct (take (nat n) xs @ drop (nat n) xs)" using dist by simp
    then have "a \<notin> set (drop (nat n) xs)"
      using a by (simp only: distinct_append) blast
    then have "unlinked w'"
      using inv' w' by (intro waitq_inv_unlinked [of h' q' "drop (nat n) xs" a w']) simp_all
    with w' show ?thesis by simp
  qed
  show ?thesis
    using r inv' p u by (intro exI [of _ h'] exI [of _ ?c']) simp
qed

text \<open>
  Claim C1. Let the calling thread own the lock of the Condition and let the queue hold
  the waiters \<open>xs\<close>, oldest first, each with a semaphore that can be posted. Then
  \<^verbatim>\<open>notify(n)\<close> returns normally; the semaphores it has posted are, in this order, those
  of the first \<open>min n (length xs)\<close> waiters, each posted once and no other semaphore
  touched; these waiters are unlinked, and the others stay linked in their order.
  \<^verbatim>\<open>notify_all()\<close> is \<^verbatim>\<open>notify\<close> with the count of the queue.
\<close>

theorem Condition_notify_fifo:
  assumes inv: "waitq_inv h (cond_waiters c) xs"
    and owned: "Condition_is_owned_internal c tid"
    and sems: "\<forall>a\<in>set xs. case Mapping.lookup h a of None \<Rightarrow> True
        | Some w \<Rightarrow> waiter_sem w < SEM_VALUE_MAX"
    and range: "- INT_MAX - 1 \<le> n \<and> n \<le> INT_MAX"
  shows "(\<exists>h' c'. Condition_notify h c tid (Some n)
             = (Returns (), h', c', map Addr (take (min (nat n) (length xs)) xs)) \<and>
           cond_lock c' = cond_lock c \<and>
           waitq_inv h' (cond_waiters c') (drop (min (nat n) (length xs)) xs) \<and>
           posted_to (set (take (min (nat n) (length xs)) xs)) h h' \<and>
           (\<forall>a\<in>set (take (min (nat n) (length xs)) xs).
              case Mapping.lookup h' a of None \<Rightarrow> False | Some w \<Rightarrow> unlinked w)) \<and>
         Condition_notify_all h c tid
           = Condition_notify h c tid (Some (waitq_count (cond_waiters c)))"
proof
  have "Condition_notify h c tid (Some n) = Condition_notify_waiters h c tid n"
    using range by (simp add: Condition_notify_def)
  then show "\<exists>h' c'. Condition_notify h c tid (Some n)
             = (Returns (), h', c', map Addr (take (min (nat n) (length xs)) xs)) \<and>
           cond_lock c' = cond_lock c \<and>
           waitq_inv h' (cond_waiters c') (drop (min (nat n) (length xs)) xs) \<and>
           posted_to (set (take (min (nat n) (length xs)) xs)) h h' \<and>
           (\<forall>a\<in>set (take (min (nat n) (length xs)) xs).
              case Mapping.lookup h' a of None \<Rightarrow> False | Some w \<Rightarrow> unlinked w)"
    using Condition_notify_waiters_correct [OF inv owned sems, of n]
    by (simp only: take_min_length drop_min_length)
next
  have "waitq_count (cond_waiters c) = int (length xs)" and "int (length xs) \<le> INT_MAX"
    using inv by (simp_all add: waitq_inv_def)
  then show "Condition_notify_all h c tid
      = Condition_notify h c tid (Some (waitq_count (cond_waiters c)))"
    by (simp add: Condition_notify_all_def Condition_notify_def INT_MAX_def)
qed

theorem Condition_notify_fifo_witness:
  "let h = Mapping.update 1 \<lparr>waiter_sem = 0, waiter_next = Addr 2, waiter_prev = NULL\<rparr>
            (Mapping.update 2 \<lparr>waiter_sem = 0, waiter_next = Addr 3, waiter_prev = Addr 1\<rparr>
            (Mapping.update 3 \<lparr>waiter_sem = 0, waiter_next = NULL, waiter_prev = Addr 2\<rparr>
             Mapping.empty));
       c = \<lparr>cond_lock = RLockObj \<lparr>rlock_sem = 0, rlock_owner = 7, rlock_count = 1\<rparr>,
            cond_waiters = \<lparr>waitq_first = Addr 1, waitq_last = Addr 3, waitq_count = 3\<rparr>\<rparr>
   in waitq_inv h (cond_waiters c) [1, 2, 3] \<and> Condition_is_owned_internal c 7 \<and>
      (\<exists>h' c'. Condition_notify h c 7 (Some 2) = (Returns (), h', c', [Addr 1, Addr 2]) \<and>
         waitq_inv h' (cond_waiters c') [3] \<and> posted_to {1, 2} h h') \<and>
      Condition_notify_all h c 7 = Condition_notify h c 7 (Some 3)"
proof -
  let ?h = "(Mapping.update 1 \<lparr>waiter_sem = 0, waiter_next = Addr 2, waiter_prev = NULL\<rparr>
            (Mapping.update 2 \<lparr>waiter_sem = 0, waiter_next = Addr 3, waiter_prev = Addr 1\<rparr>
            (Mapping.update 3 \<lparr>waiter_sem = 0, waiter_next = NULL, waiter_prev = Addr 2\<rparr>
             Mapping.empty))) :: heap"
  let ?c = "\<lparr>cond_lock = RLockObj \<lparr>rlock_sem = 0, rlock_owner = 7, rlock_count = 1\<rparr>,
            cond_waiters = \<lparr>waitq_first = Addr 1, waitq_last = Addr 3, waitq_count = 3\<rparr>\<rparr>"
  have inv: "waitq_inv ?h (cond_waiters ?c) [1, 2, 3]"
    by (simp add: waitq_inv_def unlinked_def INT_MAX_def)
  have owned: "Condition_is_owned_internal ?c 7"
    by (simp add: Condition_is_owned_internal_def RLock_is_owned_def)
  have sems: "\<forall>a\<in>set [1, 2, 3]. case Mapping.lookup ?h a of None \<Rightarrow> True
      | Some w \<Rightarrow> waiter_sem w < SEM_VALUE_MAX"
    by (simp add: SEM_VALUE_MAX_def)
  have range: "- INT_MAX - 1 \<le> 2 \<and> (2::int) \<le> INT_MAX"
    by (simp add: INT_MAX_def)
  show ?thesis
    unfolding Let_def
    using inv owned Condition_notify_fifo [OF inv owned sems range]
    by simp blast
qed

section \<open>Condition: wait and notify need the lock\<close>

text \<open>
  Claim C2. When the calling thread does not own the lock of the Condition,
  \<^verbatim>\<open>wait\<close> raises an error and returns heap, queue and lock as they were, for every
  argument; the error is the \<^verbatim>\<open>RuntimeError\<close> of the ownership check whenever the
  timeout is well-formed (the arguments are parsed first). \<^verbatim>\<open>notify(n)\<close>, for \<open>n\<close> a
  C \<^verbatim>\<open>int\<close>, and \<^verbatim>\<open>notify_all()\<close> raise that \<^verbatim>\<open>RuntimeError\<close>, post no semaphore and
  change nothing.
\<close>

theorem Condition_requires_ownership:
  assumes "\<not> Condition_is_owned_internal c tid"
  shows "(\<exists>e. Condition_wait h c tid obj a env = Some (Raises e, h, c)) \<and>
         (parse_timeout obj = Inr t \<longrightarrow>
            Condition_wait h c tid obj a env = Some (Raises RuntimeError, h, c)) \<and>
         (- INT_MAX - 1 \<le> n \<and> n \<le> INT_MAX \<longrightarrow>
            Condition_notify h c tid (Some n) = (Raises RuntimeError, h, c, [])) \<and>
         Condition_notify h c tid None = (Raises RuntimeError, h, c, []) \<and>
         Condition_notify_all h c tid = (Raises RuntimeError, h, c, [])"
  using assms
  by (cases "parse_timeout obj")
    (simp_all add: Condition_wait_def Condition_wait_parse_args_def Condition_notify_def
      Condition_notify_all_def Condition_notify_waiters_def)

theorem Condition_requires_ownership_witness:
  "let h = Mapping.update 1
             \<lparr>waiter_sem = 0, waiter_next = NULL, waiter_prev = NULL\<rparr> Mapping.empty;
       c = \<lparr>cond_lock = LockObj \<lparr>lock_sem = 0, lock_owner = 7\<rparr>,
            cond_waiters = \<lparr>waitq_first = Addr 1, waitq_last = Addr 1, waitq_count = 1\<rparr>\<rparr>;
       env = \<lparr>env_wait = \<lparr>sys_now = \<lparr>tv_sec = 0, tv_usec = 0\<rparr>, sys_answers = []\<rparr>,
              env_others = (\<lambda>s. s),
              env_lock = \<lparr>sys_now = \<lparr>tv_sec = 0, tv_usec = 0\<rparr>, sys_answers = []\<rparr>\<rparr>
   in \<not> Condition_is_owned_internal c 8 \<and>
      Condition_wait h c 8 (PyFloat 5) 2 env = Some (Raises RuntimeError, h, c) \<and>
      Condition_wait h c 8 Py_None 2 env = Some (Raises RuntimeError, h, c) \<and>
      Condition_notify h c 8 (Some 1) = (Raises RuntimeError, h, c, []) \<and>
      Condition_notify_all h c 8 = (Raises RuntimeError, h, c, [])"
proof -
  let ?c = "\<lparr>cond_lock = LockObj \<lparr>lock_sem = 0, lock_owner = 7\<rparr>,
            cond_waiters = \<lparr>waitq_first = Addr 1, waitq_last = Addr 1, waitq_count = 1\<rparr>\<rparr>"
  have n: "\<not> Condition_is_owned_internal ?c 8"
    by (simp add: Condition_is_owned_internal_def Lock_is_owned_def)
  have p: "parse_timeout (PyFloat 5) = Inr 5" "parse_timeout Py_None = Inr (- 1)"
    by (simp_all add: parse_timeout_def UNLIMITED_def)
  show ?thesis
    unfolding Let_def
    using n p Condition_requires_ownership [OF n, of _ "PyFloat 5" 2 _ 5 1]
      Condition_requires_ownership [OF n, of _ Py_None 2 _ "- 1" 1]
    by (simp add: INT_MAX_def)
qed

end
